theory Spec2Isabelle
  imports Main
begin

section \<open>The maze generator of maze.py\<close>

subsection \<open>Data model\<close>

text \<open>
  The grid holds one of four characters per position: the constants \<open>WALL\<close>, \<open>PATH\<close>,
  \<open>START\<close> and \<open>END\<close> of the module.
\<close>

datatype cell = WALL | PATH | START | END

text \<open>The only exception the methods of \<open>Maze\<close> can raise: a list index out of range.\<close>

datatype error = IndexError

text \<open>
  The fields of a \<open>Maze\<close> object. The grid is a list of rows, \<open>grid[y][x]\<close>; a position is
  a pair \<open>(x, y)\<close> of Python integers. The field \<open>end\<close> is named \<open>end_pos\<close> here.
\<close>

record maze =
  width :: int
  height :: int
  grid_w :: int
  grid_h :: int
  grid :: "cell list list"
  start :: "int \<times> int"
  end_pos :: "int \<times> int"

text \<open>
  An event of the frontier stack: \<open>stack.append(c)\<close> (also the initial \<open>stack = [c]\<close>) or
  \<open>stack.pop()\<close> removing \<open>c\<close>.
\<close>

datatype event = Push "int \<times> int" | Pop "int \<times> int"

text \<open>
  The state of a run of \<open>generate\<close>: the object's fields, the locals \<open>stack\<close> (top at the
  end of the list) and \<open>visited\<close>, the number of calls of \<open>random.choice\<close> made so far,
  the frames written by \<open>display\<close> (one snapshot of the grid per call), and a history
  \<open>log\<close> of the stack's pushes and pops, which the source does not keep and which no
  branch of the model reads.
\<close>

record gen_state = maze +
  stack :: "(int \<times> int) list"
  visited :: "(int \<times> int) set"
  choices :: nat
  frames :: "cell list list list"
  log :: "event list"

subsection \<open>Python list indexing\<close>

text \<open>
  \<open>xs[i]\<close> on a list of length \<open>n\<close>: indices \<open>0 \<le> i < n\<close> are taken as they are, indices
  \<open>-n \<le> i < 0\<close> count from the end, every other index raises \<open>IndexError\<close>.
\<close>

definition py_index :: "nat \<Rightarrow> int \<Rightarrow> error + nat" where
  "py_index n i =
     (if 0 \<le> i \<and> i < int n then Inr (nat i)
      else if - int n \<le> i \<and> i < 0 then Inr (nat (int n + i))
      else Inl IndexError)"

text \<open>The assignment \<open>grid[y][x] = v\<close>: the row is looked up first, then the column.\<close>

definition grid_set :: "cell list list \<Rightarrow> int \<Rightarrow> int \<Rightarrow> cell \<Rightarrow> error + cell list list" where
  "grid_set g x y v =
     (case py_index (length g) y of
        Inl e \<Rightarrow> Inl e
      | Inr j \<Rightarrow>
          (case py_index (length (g ! j)) x of
             Inl e \<Rightarrow> Inl e
           | Inr i \<Rightarrow> Inr (g[j := (g ! j)[i := v]])))"

text \<open>
  The content of \<open>grid[y][x]\<close>, used only at positions inside the grid
  (\<open>0 \<le> y < len(grid)\<close> and \<open>0 \<le> x < len(grid[y])\<close>).
\<close>

definition cell_at :: "cell list list \<Rightarrow> int \<Rightarrow> int \<Rightarrow> cell" where
  "cell_at g x y = g ! nat y ! nat x"

subsection \<open>Maze.__init__\<close>

text \<open>
  The constructor has no check of its arguments and no \<open>raise\<close>: \<open>[WALL] * n\<close> and
  \<open>range(n)\<close> are empty for \<open>n \<le> 0\<close>, which \<open>replicate (nat n)\<close> reproduces.
\<close>

definition Maze_init :: "int \<Rightarrow> int \<Rightarrow> error + maze" where
  "Maze_init w h =
     Inr \<lparr> width = w, height = h,
           grid_w = w * 2 + 1, grid_h = h * 2 + 1,
           grid = replicate (nat (h * 2 + 1)) (replicate (nat (w * 2 + 1)) WALL),
           start = (1, 1),
           end_pos = (w * 2 + 1 - 2, h * 2 + 1 - 2) \<rparr>"

subsection \<open>Maze.generate\<close>

definition directions :: "(int \<times> int) list" where
  "directions = [(0, -2), (0, 2), (-2, 0), (2, 0)]"

text \<open>
  The unvisited neighbours of \<open>(x, y)\<close>, in the order of \<open>directions\<close>: each entry is
  \<open>(nx, ny, dx // 2, dy // 2)\<close>. Python's \<open>//\<close> rounds down, as \<open>div\<close> on \<open>int\<close> does.
\<close>

definition neighbors_of ::
  "int \<Rightarrow> int \<Rightarrow> (int \<times> int) set \<Rightarrow> int \<times> int \<Rightarrow> (int \<times> int \<times> int \<times> int) list" where
  "neighbors_of gw gh vis p =
     map (\<lambda>(dx, dy). (fst p + dx, snd p + dy, dx div 2, dy div 2))
       (filter (\<lambda>(dx, dy). 1 \<le> fst p + dx \<and> fst p + dx < gw - 1 \<and>
                           1 \<le> snd p + dy \<and> snd p + dy < gh - 1 \<and>
                           (fst p + dx, snd p + dy) \<notin> vis)
          directions)"

text \<open>
  \<open>display\<close> writes the current grid to the terminal. The output is kept as the list
  \<open>frames\<close> of the grids written, one per call.
\<close>

definition display :: "gen_state \<Rightarrow> gen_state" where
  "display s = s\<lparr> frames := frames s @ [grid s] \<rparr>"

text \<open>
  One iteration of the \<open>while stack:\<close> loop, for a non-empty stack. The \<open>k\<close>-th call of
  \<open>random.choice\<close> returns the element at index \<open>rng k mod len(neighbors)\<close>, so that
  \<open>rng\<close> ranges over every possible sequence of random choices. The pause
  \<open>time.sleep(0.02)\<close> after \<open>display\<close> changes no state.
\<close>

definition step :: "(nat \<Rightarrow> nat) \<Rightarrow> bool \<Rightarrow> gen_state \<Rightarrow> error + gen_state" where
  "step rng animate s =
     (let x = fst (last (stack s)); y = snd (last (stack s));
          neighbors = neighbors_of (grid_w s) (grid_h s) (visited s) (x, y)
      in if neighbors \<noteq> [] then
           (case neighbors ! (rng (choices s) mod length neighbors) of
              (nx, ny, wx, wy) \<Rightarrow>
                (case grid_set (grid s) (x + wx) (y + wy) PATH of
                   Inl e \<Rightarrow> Inl e
                 | Inr g1 \<Rightarrow>
                     (case grid_set g1 nx ny PATH of
                        Inl e \<Rightarrow> Inl e
                      | Inr g2 \<Rightarrow>
                          (let s' = s\<lparr> grid := g2,
                                       visited := insert (nx, ny) (visited s),
                                       stack := stack s @ [(nx, ny)],
                                       choices := Suc (choices s),
                                       log := log s @ [Push (nx, ny)] \<rparr>
                           in Inr (if animate then display s' else s')))))
         else Inr (s\<lparr> stack := butlast (stack s), log := log s @ [Pop (x, y)] \<rparr>))"

text \<open>The positions the range check of the loop lets through.\<close>

definition in_range :: "int \<Rightarrow> int \<Rightarrow> (int \<times> int) set" where
  "in_range gw gh = {1..<gw - 1} \<times> {1..<gh - 1}"

lemma neighbors_of_mem:
  "(nx, ny, wx, wy) \<in> set (neighbors_of gw gh vis p) \<Longrightarrow>
     (nx, ny) \<in> in_range gw gh \<and> (nx, ny) \<notin> vis"
  by (auto simp: neighbors_of_def in_range_def)

lemma step_fields:
  "step rng animate s = Inr s' \<Longrightarrow>
     grid_w s' = grid_w s \<and> grid_h s' = grid_h s \<and> width s' = width s \<and>
     height s' = height s \<and> start s' = start s \<and> end_pos s' = end_pos s"
  by (auto simp: step_def display_def Let_def split: if_splits prod.splits sum.splits)

lemma step_decreases:
  assumes "stack s \<noteq> []" and "step rng animate s = Inr s'"
  shows "2 * card (in_range (grid_w s') (grid_h s') - visited s') + length (stack s')
       < 2 * card (in_range (grid_w s) (grid_h s) - visited s) + length (stack s)"
proof -
  let ?R = "in_range (grid_w s) (grid_h s)"
  let ?nb = "neighbors_of (grid_w s) (grid_h s) (visited s)
               (fst (last (stack s)), snd (last (stack s)))"
  have fin: "finite ?R" by (simp add: in_range_def)
  have same: "in_range (grid_w s') (grid_h s') = ?R"
    using step_fields [OF assms(2)] by simp
  show ?thesis
  proof (cases "?nb = []")
    case True
    with assms have "visited s' = visited s" "stack s' = butlast (stack s)"
      by (auto simp: step_def Let_def)
    with assms(1) same show ?thesis by (cases "stack s") auto
  next
    case False
    obtain nx ny wx wy where ch: "?nb ! (rng (choices s) mod length ?nb) = (nx, ny, wx, wy)"
      by (metis prod_cases4)
    from False have "?nb ! (rng (choices s) mod length ?nb) \<in> set ?nb"
      by (intro nth_mem) simp
    with ch have mem: "(nx, ny) \<in> ?R" "(nx, ny) \<notin> visited s"
      using neighbors_of_mem by metis+
    from assms(2) False ch have v: "visited s' = insert (nx, ny) (visited s)"
      and st: "stack s' = stack s @ [(nx, ny)]"
      by (auto simp: step_def display_def Let_def split: sum.splits if_splits)
    have "?R - visited s' = (?R - visited s) - {(nx, ny)}" using v by auto
    moreover have "(nx, ny) \<in> ?R - visited s" using mem by simp
    moreover have "finite (?R - visited s)" using fin by simp
    ultimately have "card (?R - visited s') < card (?R - visited s)"
      by (metis card_Diff1_less)
    with st same show ?thesis by simp
  qed
qed

text \<open>
  The loop \<open>while stack: ...\<close>. It stops with the state unchanged when the stack is empty
  and with the error when an iteration raises.
\<close>

function loop :: "(nat \<Rightarrow> nat) \<Rightarrow> bool \<Rightarrow> gen_state \<Rightarrow> error + gen_state" where
  "loop rng animate s =
     (if stack s = [] then Inr s
      else (case step rng animate s of
              Inl e \<Rightarrow> Inl e
            | Inr s' \<Rightarrow> loop rng animate s'))"
  by pat_completeness auto
termination
  by (relation "measure (\<lambda>(rng, animate, s).
        2 * card (in_range (grid_w s) (grid_h s) - visited s) + length (stack s))")
     (auto dest: step_decreases)

declare loop.simps [simp del]

text \<open>The state after the first \<open>n\<close> iterations of the loop (fewer when it ends before).\<close>

fun iterate :: "nat \<Rightarrow> (nat \<Rightarrow> nat) \<Rightarrow> bool \<Rightarrow> gen_state \<Rightarrow> error + gen_state" where
  "iterate 0 rng animate s = Inr s"
| "iterate (Suc n) rng animate s =
     (if stack s = [] then Inr s
      else (case step rng animate s of
              Inl e \<Rightarrow> Inl e
            | Inr s' \<Rightarrow> iterate n rng animate s'))"

text \<open>
  The state in which \<open>generate\<close> enters its loop: \<open>stack = [(1, 1)]\<close>,
  \<open>visited = {(1, 1)}\<close>, and the grid after \<open>grid[1][1] = PATH\<close>.
\<close>

definition enter_loop :: "maze \<Rightarrow> cell list list \<Rightarrow> gen_state" where
  "enter_loop m g =
     \<lparr> width = width m, height = height m, grid_w = grid_w m, grid_h = grid_h m,
       grid = g, start = start m, end_pos = end_pos m,
       stack = [(1, 1)], visited = {(1, 1)}, choices = 0, frames = [],
       log = [Push (1, 1)] \<rparr>"

text \<open>\<open>generate\<close> up to the end of its loop, before the endpoints are marked.\<close>

definition generate_loop :: "(nat \<Rightarrow> nat) \<Rightarrow> bool \<Rightarrow> maze \<Rightarrow> error + gen_state" where
  "generate_loop rng animate m =
     (case grid_set (grid m) 1 1 PATH of
        Inl e \<Rightarrow> Inl e
      | Inr g \<Rightarrow> loop rng animate (enter_loop m g))"

text \<open>
  \<open>generate\<close> observed after the first \<open>n\<close> iterations of its loop: the states the
  run goes through.
\<close>

definition generate_steps :: "nat \<Rightarrow> (nat \<Rightarrow> nat) \<Rightarrow> bool \<Rightarrow> maze \<Rightarrow> error + gen_state" where
  "generate_steps n rng animate m =
     (case grid_set (grid m) 1 1 PATH of
        Inl e \<Rightarrow> Inl e
      | Inr g \<Rightarrow> iterate n rng animate (enter_loop m g))"

text \<open>The two assignments after the loop: \<open>START\<close> first, then \<open>END\<close>.\<close>

definition mark_endpoints :: "gen_state \<Rightarrow> error + gen_state" where
  "mark_endpoints s =
     (case grid_set (grid s) 1 1 START of
        Inl e \<Rightarrow> Inl e
      | Inr g1 \<Rightarrow>
          (case grid_set g1 (grid_w s - 2) (grid_h s - 2) END of
             Inl e \<Rightarrow> Inl e
           | Inr g2 \<Rightarrow> Inr (s\<lparr> grid := g2 \<rparr>)))"

definition generate :: "(nat \<Rightarrow> nat) \<Rightarrow> bool \<Rightarrow> maze \<Rightarrow> error + gen_state" where
  "generate rng animate m =
     (case generate_loop rng animate m of
        Inl e \<Rightarrow> Inl e
      | Inr s \<Rightarrow> mark_endpoints s)"

text \<open>Construction followed by generation, as \<open>main\<close> does it.\<close>

definition make_maze :: "int \<Rightarrow> int \<Rightarrow> (nat \<Rightarrow> nat) \<Rightarrow> bool \<Rightarrow> error + gen_state" where
  "make_maze w h rng animate =
     (case Maze_init w h of
        Inl e \<Rightarrow> Inl e
      | Inr m \<Rightarrow> generate rng animate m)"

subsection \<open>Grids of the right shape\<close>

text \<open>
  A grid of \<open>gh\<close> rows of \<open>gw\<close> columns each, and the positions \<open>(x, y)\<close> inside it:
  the indices a Python list of that shape accepts without counting from the end.
\<close>

definition grid_ok :: "int \<Rightarrow> int \<Rightarrow> cell list list \<Rightarrow> bool" where
  "grid_ok gw gh g \<longleftrightarrow> length g = nat gh \<and> (\<forall>row \<in> set g. length row = nat gw)"

definition inside :: "int \<Rightarrow> int \<Rightarrow> int \<Rightarrow> int \<Rightarrow> bool" where
  "inside gw gh x y \<longleftrightarrow> 0 \<le> x \<and> x < gw \<and> 0 \<le> y \<and> y < gh"

lemma grid_set_inside:
  assumes "grid_ok gw gh g" and "inside gw gh x y"
  shows "grid_set g x y v = Inr (g[nat y := (g ! nat y)[nat x := v]])"
proof -
  from assms have y: "py_index (length g) y = Inr (nat y)"
    by (simp add: grid_ok_def inside_def py_index_def)
  from assms have "nat y < length g" by (simp add: grid_ok_def inside_def)
  then have "g ! nat y \<in> set g" by simp
  with assms have "length (g ! nat y) = nat gw" by (simp add: grid_ok_def)
  with assms have x: "py_index (length (g ! nat y)) x = Inr (nat x)"
    by (simp add: inside_def py_index_def)
  show ?thesis by (simp add: grid_set_def y x)
qed

lemma grid_ok_update:
  assumes "grid_ok gw gh g"
  shows "grid_ok gw gh (g[j := (g ! j)[i := v]])"
proof (cases "j < length g")
  case True
  then have "g ! j \<in> set g" by simp
  with assms have "length ((g ! j)[i := v]) = nat gw" by (simp add: grid_ok_def)
  with assms show ?thesis
    by (auto simp: grid_ok_def dest!: set_update_subset_insert [THEN subsetD])
next
  case False
  then have "g[j := (g ! j)[i := v]] = g" by (simp add: list_update_beyond)
  with assms show ?thesis by simp
qed

lemma cell_at_update:
  assumes "grid_ok gw gh g" and "inside gw gh x y" and "inside gw gh x' y'"
  shows "cell_at (g[nat y := (g ! nat y)[nat x := v]]) x' y' =
           (if x' = x \<and> y' = y then v else cell_at g x' y')"
proof -
  from assms have ly: "nat y < length g" "nat y' < length g"
    by (simp_all add: grid_ok_def inside_def)
  then have "g ! nat y \<in> set g" by simp
  with assms have lx: "nat x < length (g ! nat y)" by (simp add: grid_ok_def inside_def)
  from assms have eqs: "nat y' = nat y \<longleftrightarrow> y' = y" "nat x' = nat x \<longleftrightarrow> x' = x"
    by (auto simp: inside_def)
  show ?thesis
    using ly lx eqs by (auto simp: cell_at_def nth_list_update)
qed

text \<open>The effect of an assignment inside the grid.\<close>

lemma grid_set_effect:
  assumes "grid_ok gw gh g" and "inside gw gh x y"
  shows "\<exists>g'. grid_set g x y v = Inr g' \<and> grid_ok gw gh g' \<and>
           (\<forall>x' y'. inside gw gh x' y' \<longrightarrow>
              cell_at g' x' y' = (if x' = x \<and> y' = y then v else cell_at g x' y'))"
proof (intro exI conjI allI impI)
  show "grid_set g x y v = Inr (g[nat y := (g ! nat y)[nat x := v]])"
    using assms by (rule grid_set_inside)
  show "grid_ok gw gh (g[nat y := (g ! nat y)[nat x := v]])"
    using assms(1) by (rule grid_ok_update)
  show "cell_at (g[nat y := (g ! nat y)[nat x := v]]) x' y' =
          (if x' = x \<and> y' = y then v else cell_at g x' y')"
    if "inside gw gh x' y'" for x' y'
    using assms that by (rule cell_at_update)
qed

lemma grid_ok_replicate: "grid_ok gw gh (replicate (nat gh) (replicate (nat gw) c))"
  by (simp add: grid_ok_def)

lemma cell_at_replicate:
  "inside gw gh x y \<Longrightarrow> cell_at (replicate (nat gh) (replicate (nat gw) c)) x y = c"
  by (simp add: cell_at_def inside_def)

text \<open>
  The grid positions of the logical cells: cell \<open>(cx, cy)\<close> of the \<open>w\<close> by \<open>h\<close> maze
  sits at \<open>(2 * cx + 1, 2 * cy + 1)\<close>. These are the positions with two odd coordinates
  strictly inside the border.
\<close>

definition cells :: "int \<Rightarrow> int \<Rightarrow> (int \<times> int) set" where
  "cells w h = (\<lambda>(cx, cy). (2 * cx + 1, 2 * cy + 1)) ` ({0..<w} \<times> {0..<h})"

lemma cells_iff:
  "(x, y) \<in> cells w h \<longleftrightarrow> odd x \<and> odd y \<and> 0 < x \<and> x < 2 * w \<and> 0 < y \<and> y < 2 * h"
proof
  assume "(x, y) \<in> cells w h"
  then show "odd x \<and> odd y \<and> 0 < x \<and> x < 2 * w \<and> 0 < y \<and> y < 2 * h"
    by (auto simp: cells_def)
next
  assume a: "odd x \<and> odd y \<and> 0 < x \<and> x < 2 * w \<and> 0 < y \<and> y < 2 * h"
  then obtain cx cy where "x = 2 * cx + 1" "y = 2 * cy + 1"
    by (auto elim!: oddE)
  with a show "(x, y) \<in> cells w h"
    by (auto simp: cells_def image_iff intro!: bexI [of _ "(cx, cy)"])
qed

lemma finite_cells: "finite (cells w h)"
  by (simp add: cells_def)

lemma card_cells: "card (cells w h) = nat w * nat h"
proof -
  have "inj_on (\<lambda>(cx::int, cy::int). (2 * cx + 1, 2 * cy + 1)) ({0..<w} \<times> {0..<h})"
    by (auto simp: inj_on_def)
  then have "card (cells w h) = card ({0..<w} \<times> {0..<h})"
    unfolding cells_def by (rule card_image)
  then show ?thesis by (simp add: card_cartesian_product)
qed

lemma cells_inside: "(x, y) \<in> cells w h \<Longrightarrow> inside (2 * w + 1) (2 * h + 1) x y"
  by (auto simp: cells_iff inside_def)

text \<open>
  Two positions are adjacent when they differ by one of the four \<open>directions\<close>; the
  wall position between them is their midpoint.
\<close>

definition adjacent :: "int \<times> int \<Rightarrow> int \<times> int \<Rightarrow> bool" where
  "adjacent p q \<longleftrightarrow> (fst q - fst p, snd q - snd p) \<in> set directions"

definition wall_between :: "int \<times> int \<Rightarrow> int \<times> int \<Rightarrow> int \<times> int" where
  "wall_between p q = ((fst p + fst q) div 2, (snd p + snd q) div 2)"

lemma wall_between_sym: "wall_between p q = wall_between q p"
  by (simp add: wall_between_def add.commute)

lemma adjacent_cases:
  assumes "adjacent p q"
  obtains "q = (fst p, snd p - 2)" | "q = (fst p, snd p + 2)"
    | "q = (fst p - 2, snd p)" | "q = (fst p + 2, snd p)"
  using assms by (cases q) (auto simp: adjacent_def directions_def)

lemma neighbors_of_elem:
  assumes "e \<in> set (neighbors_of (2 * w + 1) (2 * h + 1) vis p)" and "p \<in> cells w h"
  obtains n where "e = (fst n, snd n, fst (wall_between p n) - fst p, snd (wall_between p n) - snd p)"
    and "n \<in> cells w h" and "n \<notin> vis" and "adjacent p n"
proof -
  obtain x y where p: "p = (x, y)" by (cases p)
  from assms(2) p have parity: "odd x" "odd y" "0 < x" "x < 2 * w" "0 < y" "y < 2 * h"
    by (simp_all add: cells_iff)
  from assms(1) obtain dx dy where d: "(dx, dy) \<in> set directions"
    and e: "e = (x + dx, y + dy, dx div 2, dy div 2)"
    and r: "1 \<le> x + dx" "x + dx < 2 * w" "1 \<le> y + dy" "y + dy < 2 * h"
    and nv: "(x + dx, y + dy) \<notin> vis"
    by (auto simp: neighbors_of_def p)
  let ?n = "(x + dx, y + dy)"
  from d parity r have "?n \<in> cells w h"
    by (auto simp: cells_iff directions_def)
  moreover from d have "adjacent p ?n" by (simp add: adjacent_def p)
  moreover from d parity have "fst (wall_between p ?n) - fst p = dx div 2"
    "snd (wall_between p ?n) - snd p = dy div 2"
    by (auto simp: wall_between_def p directions_def elim!: oddE)
  ultimately show thesis using that [of ?n] e nv by simp
qed

lemma neighbors_of_empty:
  assumes "neighbors_of (2 * w + 1) (2 * h + 1) vis p = []"
    and "adjacent p q" and "q \<in> cells w h"
  shows "q \<in> vis"
proof -
  obtain x y where p: "p = (x, y)" by (cases p)
  obtain dx dy where d: "(dx, dy) \<in> set directions" and q: "q = (x + dx, y + dy)"
    using assms(2) by (cases q) (auto simp: adjacent_def p)
  from assms(3) q have r: "1 \<le> x + dx" "x + dx < 2 * w + 1 - 1" "1 \<le> y + dy" "y + dy < 2 * h + 1 - 1"
    by (auto simp: cells_iff)
  from assms(1) have "\<forall>d \<in> set directions. \<not> (case d of (dx, dy) \<Rightarrow> 1 \<le> fst p + dx \<and> fst p + dx < 2 * w + 1 - 1 \<and>
                           1 \<le> snd p + dy \<and> snd p + dy < 2 * h + 1 - 1 \<and>
                           (fst p + dx, snd p + dy) \<notin> vis)"
    by (simp add: neighbors_of_def filter_empty_conv)
  with d have "\<not> (1 \<le> fst p + dx \<and> fst p + dx < 2 * w + 1 - 1 \<and>
                           1 \<le> snd p + dy \<and> snd p + dy < 2 * h + 1 - 1 \<and>
                           (fst p + dx, snd p + dy) \<notin> vis)" by blast
  with r show ?thesis by (simp add: p q)
qed

subsection \<open>Undirected graphs as sets of edges\<close>

text \<open>
  An undirected graph is a set of edges, each a set of two vertices. \<open>linked E\<close> is its
  adjacency relation, so that \<open>(a, b) \<in> (linked E)\<^sup>*\<close> says that a chain of edges
  joins \<open>a\<close> and \<open>b\<close>. A cycle is a list of at least three distinct vertices in which
  every vertex has an edge to the next, and the last to the first.
\<close>

definition linked :: "'a set set \<Rightarrow> ('a \<times> 'a) set" where
  "linked E = {(a, b). {a, b} \<in> E}"

definition cycle :: "'a set set \<Rightarrow> 'a list \<Rightarrow> bool" where
  "cycle E vs \<longleftrightarrow>
     3 \<le> length vs \<and> distinct vs \<and>
     (\<forall>i<length vs. {vs ! i, vs ! (Suc i mod length vs)} \<in> E)"

text \<open>
  The invariant of a tree that grows from the root \<open>r\<close>: every edge lies inside the
  finite vertex set \<open>V\<close>, there is one edge less than there are vertices, every vertex is
  joined to the root, and there is no cycle.
\<close>

definition tree_on :: "'a set \<Rightarrow> 'a set set \<Rightarrow> 'a \<Rightarrow> bool" where
  "tree_on V E r \<longleftrightarrow>
     finite V \<and> r \<in> V \<and> (\<forall>e\<in>E. e \<subseteq> V) \<and> card E + 1 = card V \<and>
     (\<forall>v\<in>V. (r, v) \<in> (linked E)\<^sup>*) \<and> (\<forall>vs. \<not> cycle E vs)"

lemma linked_sym: "sym (linked E)"
  by (auto simp: linked_def sym_def insert_commute)

lemma linked_mono: "E \<subseteq> E' \<Longrightarrow> linked E \<subseteq> linked E'"
  by (auto simp: linked_def)

lemma leaf_no_cycle:
  assumes nocyc: "\<forall>vs. \<not> cycle E vs" and fresh: "\<forall>e\<in>E. n \<notin> e" 
  shows "\<not> cycle (insert {c, n} E) vs"
proof
  assume cyc: "cycle (insert {c, n} E) vs"
  let ?L = "length vs"
  from cyc have L: "3 \<le> ?L" and dist: "distinct vs"
    and edge: "\<And>i. i < ?L \<Longrightarrow> {vs ! i, vs ! (Suc i mod ?L)} \<in> insert {c, n} E"
    by (auto simp: cycle_def)
  show False
  proof (cases "n \<in> set vs")
    case False
    have "{vs ! i, vs ! (Suc i mod ?L)} \<in> E" if "i < ?L" for i
    proof -
      from L have "0 < ?L" by linarith
      then have "Suc i mod ?L < ?L" by (rule mod_less_divisor)
      with that have "vs ! i \<in> set vs" "vs ! (Suc i mod ?L) \<in> set vs"
        by (simp_all only: nth_mem)
      with False have "vs ! i \<noteq> n" "vs ! (Suc i mod ?L) \<noteq> n" by auto
      then have "{vs ! i, vs ! (Suc i mod ?L)} \<noteq> {c, n}" by (auto simp: doubleton_eq_iff)
      with edge [OF that] show ?thesis by simp
    qed
    with L dist have "cycle E vs" by (simp add: cycle_def)
    with nocyc show False by blast
  next
    case True
    then obtain i where i: "i < ?L" and vi: "vs ! i = n" by (auto simp: in_set_conv_nth)
    define j where "j = (if Suc i = ?L then 0 else Suc i)"
    define k where "k = (if i = 0 then ?L - 1 else i - 1)"
    from i L have j: "j < ?L" "Suc i mod ?L = j" "j \<noteq> i" by (auto simp: j_def)
    from i L have k: "k < ?L" "Suc k mod ?L = i" "k \<noteq> i" by (auto simp: k_def)
    from i L have jk: "j \<noteq> k" by (auto simp: j_def k_def split: if_splits)
    from dist j i have "vs ! j \<noteq> vs ! i" by (simp add: nth_eq_iff_index_eq)
    with vi have nj: "vs ! j \<noteq> n" by simp
    from dist k i have "vs ! k \<noteq> vs ! i" by (simp add: nth_eq_iff_index_eq)
    with vi have nk: "vs ! k \<noteq> n" by simp
    from edge [OF i] j vi have "{n, vs ! j} \<in> insert {c, n} E" by simp
    moreover from fresh have "{n, vs ! j} \<notin> E" by auto
    ultimately have "{n, vs ! j} = {c, n}" by simp
    with nj have cj: "vs ! j = c" by (auto simp: doubleton_eq_iff)
    from edge [OF k(1)] k vi have "{vs ! k, n} \<in> insert {c, n} E" by simp
    moreover from fresh have "{vs ! k, n} \<notin> E" by auto
    ultimately have "{vs ! k, n} = {c, n}" by simp
    with nk have ck: "vs ! k = c" by (auto simp: doubleton_eq_iff)
    from cj ck have "vs ! j = vs ! k" by simp
    with dist j(1) k(1) have "j = k" by (simp only: nth_eq_iff_index_eq)
    with jk show False by simp
  qed
qed

lemma tree_on_add_leaf:
  assumes t: "tree_on V E r" and c: "c \<in> V" and n: "n \<notin> V"
  shows "tree_on (insert n V) (insert {c, n} E) r"
proof -
  from t have fin: "finite V" and r: "r \<in> V" and sub: "\<forall>e\<in>E. e \<subseteq> V"
    and card: "card E + 1 = card V" and conn: "\<forall>v\<in>V. (r, v) \<in> (linked E)\<^sup>*"
    and nocyc: "\<forall>vs. \<not> cycle E vs"
    by (simp_all add: tree_on_def)
  from sub have "E \<subseteq> Pow V" by auto
  with fin have finE: "finite E" by (metis finite_Pow_iff finite_subset)
  from sub n have fresh: "\<forall>e\<in>E. n \<notin> e" by auto
  then have notin: "{c, n} \<notin> E" by auto
  have mono: "(linked E)\<^sup>* \<subseteq> (linked (insert {c, n} E))\<^sup>*"
    by (intro rtrancl_mono linked_mono) auto
  have new: "(c, n) \<in> linked (insert {c, n} E)" by (simp add: linked_def)
  have "(r, v) \<in> (linked (insert {c, n} E))\<^sup>*" if "v \<in> insert n V" for v
  proof (cases "v = n")
    case True
    from conn c mono have "(r, c) \<in> (linked (insert {c, n} E))\<^sup>*" by blast
    with new True show ?thesis by (metis rtrancl.rtrancl_into_rtrancl)
  next
    case False
    with that conn mono show ?thesis by blast
  qed
  moreover have "card (insert {c, n} E) + 1 = card (insert n V)"
    using finE fin notin n card by simp
  moreover have "\<forall>e\<in>insert {c, n} E. e \<subseteq> insert n V" using sub c by auto
  moreover have "\<forall>vs. \<not> cycle (insert {c, n} E) vs"
    using leaf_no_cycle [OF nocyc fresh] by blast
  ultimately show ?thesis using fin r by (simp add: tree_on_def)
qed

lemma tree_on_single: "tree_on {r} {} r"
proof -
  have "\<not> cycle {} vs" for vs :: "'a list"
    by (cases vs) (auto simp: cycle_def)
  then show ?thesis by (simp add: tree_on_def)
qed

lemma tree_on_connected:
  assumes "tree_on V E r" and "a \<in> V" and "b \<in> V"
  shows "(a, b) \<in> (linked E)\<^sup>*"
proof -
  from assms have "(r, a) \<in> (linked E)\<^sup>*" "(r, b) \<in> (linked E)\<^sup>*"
    by (simp_all add: tree_on_def)
  moreover have "sym ((linked E)\<^sup>*)" by (rule sym_rtrancl [OF linked_sym])
  ultimately show ?thesis by (meson symD rtrancl_trans)
qed

subsection \<open>Passages and the invariants of the loop\<close>

text \<open>
  A passage joins two adjacent positions when the wall position between them holds
  \<open>PATH\<close>. The passage graph of a grid has the logical cells as vertices and the
  passages between them as edges.
\<close>

definition passage :: "cell list list \<Rightarrow> int \<times> int \<Rightarrow> int \<times> int \<Rightarrow> bool" where
  "passage g p q \<longleftrightarrow>
     adjacent p q \<and> cell_at g (fst (wall_between p q)) (snd (wall_between p q)) = PATH"

definition passages :: "int \<Rightarrow> int \<Rightarrow> cell list list \<Rightarrow> (int \<times> int) set set" where
  "passages w h g = {{p, q} | p q. p \<in> cells w h \<and> q \<in> cells w h \<and> passage g p q}"

lemma passagesI:
  "p \<in> cells w h \<Longrightarrow> q \<in> cells w h \<Longrightarrow> passage g p q \<Longrightarrow> {p, q} \<in> passages w h g"
  unfolding passages_def by blast

lemma passagesE:
  assumes "e \<in> passages w h g"
  obtains p q where "e = {p, q}" "p \<in> cells w h" "q \<in> cells w h" "passage g p q"
  using assms unfolding passages_def by blast

lemma wall_between_cases:
  assumes "adjacent p q"
  obtains "q = (fst p, snd p - 2)" "wall_between p q = (fst p, snd p - 1)"
    | "q = (fst p, snd p + 2)" "wall_between p q = (fst p, snd p + 1)"
    | "q = (fst p - 2, snd p)" "wall_between p q = (fst p - 1, snd p)"
    | "q = (fst p + 2, snd p)" "wall_between p q = (fst p + 1, snd p)"
  using assms by (rule adjacent_cases) (simp_all add: wall_between_def)

lemma wall_between_inside:
  assumes "p \<in> cells w h" and "q \<in> cells w h" and "adjacent p q"
  shows "inside (2 * w + 1) (2 * h + 1) (fst (wall_between p q)) (snd (wall_between p q))"
  using assms(3)
  by (rule wall_between_cases) (use assms(1,2) in \<open>auto simp: cells_iff inside_def\<close>)

lemma wall_between_parity:
  assumes "odd (fst p)" and "odd (snd p)" and "adjacent p q"
  shows "even (fst (wall_between p q)) \<noteq> even (snd (wall_between p q))"
  using assms(3) by (rule wall_between_cases) (use assms(1,2) in auto)

lemma wall_between_inj:
  assumes "odd (fst p)" "odd (snd p)" "odd (fst c)" "odd (snd c)"
    and "adjacent p q" and "adjacent c n" and "wall_between p q = wall_between c n"
  shows "{p, q} = {c, n}"
  using assms(5)
proof (rule wall_between_cases)
  assume "q = (fst p, snd p - 2)" "wall_between p q = (fst p, snd p - 1)"
  with assms(1-4,7) show ?thesis
    using assms(6) by (elim wall_between_cases) (cases p; cases c; auto)+
next
  assume "q = (fst p, snd p + 2)" "wall_between p q = (fst p, snd p + 1)"
  with assms(1-4,7) show ?thesis
    using assms(6) by (elim wall_between_cases) (cases p; cases c; auto)+
next
  assume "q = (fst p - 2, snd p)" "wall_between p q = (fst p - 1, snd p)"
  with assms(1-4,7) show ?thesis
    using assms(6) by (elim wall_between_cases) (cases p; cases c; auto)+
next
  assume "q = (fst p + 2, snd p)" "wall_between p q = (fst p + 1, snd p)"
  with assms(1-4,7) show ?thesis
    using assms(6) by (elim wall_between_cases) (cases p; cases c; auto)+
qed


text \<open>
  The first part of the loop invariant, for a maze of \<open>w\<close> by \<open>h\<close> cells: the fields are
  those the constructor set, the grid has its shape, the stack holds visited cells without
  repetition, and only logical cells are visited.
\<close>

definition shape :: "int \<Rightarrow> int \<Rightarrow> gen_state \<Rightarrow> bool" where
  "shape w h s \<longleftrightarrow>
     1 \<le> w \<and> 1 \<le> h \<and> width s = w \<and> height s = h \<and>
     grid_w s = 2 * w + 1 \<and> grid_h s = 2 * h + 1 \<and>
     grid_ok (2 * w + 1) (2 * h + 1) (grid s) \<and>
     set (stack s) \<subseteq> visited s \<and> visited s \<subseteq> cells w h \<and> distinct (stack s)"

lemma step_cases:
  assumes sh: "shape w h s" and ne: "stack s \<noteq> []"
  obtains (backtrack)
      "step rng animate s =
         Inr (s\<lparr> stack := butlast (stack s), log := log s @ [Pop (last (stack s))] \<rparr>)"
      "\<forall>q \<in> cells w h. adjacent (last (stack s)) q \<longrightarrow> q \<in> visited s"
  | (visit) n g' where
      "n \<in> cells w h" "n \<notin> visited s" "adjacent (last (stack s)) n"
      "grid_ok (2 * w + 1) (2 * h + 1) g'"
      "\<And>x y. inside (2 * w + 1) (2 * h + 1) x y \<Longrightarrow>
         cell_at g' x y =
           (if (x, y) = n \<or> (x, y) = wall_between (last (stack s)) n then PATH
            else cell_at (grid s) x y)"
      "step rng animate s =
         Inr (s\<lparr> grid := g', visited := insert n (visited s), stack := stack s @ [n],
                 choices := Suc (choices s),
                 frames := (if animate then frames s @ [g'] else frames s),
                 log := log s @ [Push n] \<rparr>)"
proof -
  let ?c = "last (stack s)"
  let ?gw = "2 * w + 1" and ?gh = "2 * h + 1"
  let ?nb = "neighbors_of ?gw ?gh (visited s) ?c"
  from sh have gw: "grid_w s = ?gw" and gh: "grid_h s = ?gh"
    and ok: "grid_ok ?gw ?gh (grid s)" by (simp_all add: shape_def)
  from sh ne have c: "?c \<in> cells w h" by (auto simp: shape_def dest: last_in_set)
  show thesis
  proof (cases "?nb = []")
    case True
    then have "step rng animate s =
         Inr (s\<lparr> stack := butlast (stack s), log := log s @ [Pop ?c] \<rparr>)"
      by (simp add: step_def gw gh)
    moreover have "\<forall>q \<in> cells w h. adjacent ?c q \<longrightarrow> q \<in> visited s"
      using neighbors_of_empty [OF True] by blast
    ultimately show thesis by (rule backtrack)
  next
    case False
    let ?e = "?nb ! (rng (choices s) mod length ?nb)"
    from False have "?e \<in> set ?nb" by (intro nth_mem) simp
    then obtain n where e: "?e = (fst n, snd n, fst (wall_between ?c n) - fst ?c,
          snd (wall_between ?c n) - snd ?c)"
      and n: "n \<in> cells w h" "n \<notin> visited s" "adjacent ?c n"
      using c by (rule neighbors_of_elem)
    let ?m = "wall_between ?c n"
    from c n have "inside ?gw ?gh (fst ?m) (snd ?m)" by (intro wall_between_inside)
    from grid_set_effect [OF ok this, of PATH]
    obtain g1 where g1: "grid_set (grid s) (fst ?m) (snd ?m) PATH = Inr g1"
      "grid_ok ?gw ?gh g1"
      "\<forall>x y. inside ?gw ?gh x y \<longrightarrow>
          cell_at g1 x y = (if x = fst ?m \<and> y = snd ?m then PATH else cell_at (grid s) x y)"
      by blast
    from n have "inside ?gw ?gh (fst n) (snd n)" by (intro cells_inside) simp
    from grid_set_effect [OF g1(2) this, of PATH]
    obtain g2 where g2: "grid_set g1 (fst n) (snd n) PATH = Inr g2"
      "grid_ok ?gw ?gh g2"
      "\<forall>x y. inside ?gw ?gh x y \<longrightarrow>
          cell_at g2 x y = (if x = fst n \<and> y = snd n then PATH else cell_at g1 x y)"
      by blast
    have eff: "cell_at g2 x y = (if (x, y) = n \<or> (x, y) = ?m then PATH else cell_at (grid s) x y)"
      if "inside ?gw ?gh x y" for x y
      using g1(3) g2(3) that by (auto simp: prod_eq_iff)
    have "step rng animate s =
         Inr (s\<lparr> grid := g2, visited := insert n (visited s), stack := stack s @ [n],
                 choices := Suc (choices s),
                 frames := (if animate then frames s @ [g2] else frames s),
                 log := log s @ [Push n] \<rparr>)"
      using False e g1(1) g2(1) by (cases animate) (simp_all add: step_def display_def gw gh)
    with n g2(2) eff show thesis by (intro visit [of n g2]) 
  qed
qed


lemma step_total:
  assumes "shape w h s" and "stack s \<noteq> []"
  shows "\<exists>s'. step rng animate s = Inr s'"
  using assms by (rule step_cases [where rng = rng and animate = animate]) blast+

lemma passages_carve:
  assumes c: "c \<in> cells w h" and n: "n \<in> cells w h" and adj: "adjacent c n"
    and eff: "\<And>x y. inside (2 * w + 1) (2 * h + 1) x y \<Longrightarrow>
         cell_at g' x y = (if (x, y) = n \<or> (x, y) = wall_between c n then PATH
                           else cell_at g x y)"
  shows "passages w h g' = insert {c, n} (passages w h g)"
proof -
  have at: "cell_at g' (fst (wall_between p q)) (snd (wall_between p q)) = PATH \<longleftrightarrow>
        {p, q} = {c, n} \<or> cell_at g (fst (wall_between p q)) (snd (wall_between p q)) = PATH"
    if p: "p \<in> cells w h" and q: "q \<in> cells w h" and pq: "adjacent p q" for p q
  proof -
    let ?m = "wall_between p q"
    from p have op: "odd (fst p)" "odd (snd p)" by (cases p; simp add: cells_iff)+
    from c have oc: "odd (fst c)" "odd (snd c)" by (cases c; simp add: cells_iff)+
    from n have on: "odd (fst n)" "odd (snd n)" by (cases n; simp add: cells_iff)+
    from op pq have "even (fst ?m) \<noteq> even (snd ?m)" by (rule wall_between_parity)
    with on have ne: "?m \<noteq> n" by auto
    have inj: "?m = wall_between c n \<longleftrightarrow> {p, q} = {c, n}"
    proof
      assume "?m = wall_between c n"
      with op oc pq adj show "{p, q} = {c, n}" by (intro wall_between_inj)
    next
      assume "{p, q} = {c, n}"
      then have "(p = c \<and> q = n) \<or> (p = n \<and> q = c)" by (auto simp: doubleton_eq_iff)
      then show "?m = wall_between c n" by (auto intro: wall_between_sym)
    qed
    from p q pq have "inside (2 * w + 1) (2 * h + 1) (fst ?m) (snd ?m)"
      by (rule wall_between_inside)
    from eff [OF this] ne inj show ?thesis by auto
  qed
  show ?thesis
  proof (intro set_eqI iffI)
    fix e assume "e \<in> passages w h g'"
    then obtain p q where e: "e = {p, q}" and pq: "p \<in> cells w h" "q \<in> cells w h"
      "passage g' p q"
      by (rule passagesE)
    with at [of p q] have "{p, q} = {c, n} \<or> passage g p q"
      by (simp add: passage_def)
    with pq(1,2) have "{p, q} = {c, n} \<or> {p, q} \<in> passages w h g"
      by (auto intro: passagesI)
    with e show "e \<in> insert {c, n} (passages w h g)" by auto
  next
    fix e assume "e \<in> insert {c, n} (passages w h g)"
    then consider "e = {c, n}" | "e \<in> passages w h g" by auto
    then show "e \<in> passages w h g'"
    proof cases
      case 1
      from c n adj at [of c n] have "passage g' c n" by (simp add: passage_def)
      with c n 1 show ?thesis by (auto intro: passagesI)
    next
      case 2
      then obtain p q where e: "e = {p, q}" and pq: "p \<in> cells w h" "q \<in> cells w h"
        "passage g p q"
        by (rule passagesE)
      with at [of p q] have "passage g' p q" by (simp add: passage_def)
      with e pq show ?thesis by (auto intro: passagesI)
    qed
  qed
qed

text \<open>
  The contents of the grid: every position holds \<open>WALL\<close> or \<open>PATH\<close>, positions with
  two even coordinates hold \<open>WALL\<close>, and a logical cell holds \<open>PATH\<close> exactly when it
  is visited.
\<close>

definition content_ok :: "int \<Rightarrow> int \<Rightarrow> gen_state \<Rightarrow> bool" where
  "content_ok w h s \<longleftrightarrow>
     (\<forall>x y. inside (2 * w + 1) (2 * h + 1) x y \<longrightarrow>
        (cell_at (grid s) x y = WALL \<or> cell_at (grid s) x y = PATH) \<and>
        (even x \<and> even y \<longrightarrow> cell_at (grid s) x y = WALL) \<and>
        ((x, y) \<in> cells w h \<longrightarrow> (cell_at (grid s) x y = PATH) = ((x, y) \<in> visited s)))"

text \<open>
  A visited cell that has left the stack has no unvisited adjacent cell.
\<close>

definition closed_off :: "int \<Rightarrow> int \<Rightarrow> gen_state \<Rightarrow> bool" where
  "closed_off w h s \<longleftrightarrow>
     (\<forall>c \<in> visited s - set (stack s). \<forall>q \<in> cells w h. adjacent c q \<longrightarrow> q \<in> visited s)"

text \<open>
  The history and the counters: every visited cell has been pushed once, every visited
  cell no longer on the stack has been popped once, there is one random choice per visited
  cell but the first, one frame per choice when animation is on, and the log starts with
  the push of \<open>(1, 1)\<close>.
\<close>

fun is_push :: "event \<Rightarrow> bool" where
  "is_push (Push c) = True"
| "is_push (Pop c) = False"

definition log_ok :: "bool \<Rightarrow> gen_state \<Rightarrow> bool" where
  "log_ok animate s \<longleftrightarrow>
     (\<forall>c. count_list (log s) (Push c) = (if c \<in> visited s then 1 else 0)) \<and>
     (\<forall>c. count_list (log s) (Pop c) = (if c \<in> visited s - set (stack s) then 1 else 0)) \<and>
     choices s + 1 = card (visited s) \<and>
     length (frames s) = (if animate then choices s else 0) \<and>
     log s \<noteq> [] \<and> hd (log s) = Push (1, 1) \<and>
     length (filter is_push (log s)) = choices s + 1 \<and>
     length (log s) + length (stack s) = 2 * choices s + 2"

lemma step_shape:
  assumes "shape w h s" and "stack s \<noteq> []" and "step rng animate s = Inr s'"
  shows "shape w h s'"
  using assms(1,2)
proof (cases rule: step_cases [where rng = rng and animate = animate])
  case backtrack
  with assms(3) have "s' = s\<lparr> stack := butlast (stack s), log := log s @ [Pop (last (stack s))] \<rparr>"
    by simp
  with assms(1) show ?thesis
    by (auto simp: shape_def distinct_butlast dest: in_set_butlastD)
next
  case (visit n g')
  with assms(3) have "s' = s\<lparr> grid := g', visited := insert n (visited s), stack := stack s @ [n],
                 choices := Suc (choices s),
                 frames := (if animate then frames s @ [g'] else frames s),
                 log := log s @ [Push n] \<rparr>"
    by simp
  with assms(1) visit(1,2,4) show ?thesis
    by (auto simp: shape_def)
qed

lemma step_content:
  assumes "shape w h s" and "content_ok w h s" and "stack s \<noteq> []"
    and "step rng animate s = Inr s'"
  shows "content_ok w h s'"
  using assms(1,3)
proof (cases rule: step_cases [where rng = rng and animate = animate])
  case backtrack
  with assms(4) have "s' = s\<lparr> stack := butlast (stack s), log := log s @ [Pop (last (stack s))] \<rparr>"
    by simp
  with assms(2) show ?thesis by (simp add: content_ok_def)
next
  case (visit n g')
  let ?c = "last (stack s)"
  from visit assms(4) have s': "grid s' = g'" "visited s' = insert n (visited s)"
    by auto
  from assms(1,3) have c: "?c \<in> cells w h" by (auto simp: shape_def dest: last_in_set)
  then have oc: "odd (fst ?c)" "odd (snd ?c)" by (cases ?c; simp add: cells_iff)+
  from visit(1) have on: "odd (fst n)" "odd (snd n)" by (cases n; simp add: cells_iff)+
  from oc visit(3) have par: "even (fst (wall_between ?c n)) \<noteq> even (snd (wall_between ?c n))"
    by (rule wall_between_parity)
  show ?thesis
    unfolding content_ok_def s'
  proof (intro allI impI)
    fix x y assume ins: "inside (2 * w + 1) (2 * h + 1) x y"
    from assms(2) ins have old: "cell_at (grid s) x y = WALL \<or> cell_at (grid s) x y = PATH"
      "even x \<and> even y \<longrightarrow> cell_at (grid s) x y = WALL"
      "(x, y) \<in> cells w h \<longrightarrow> (cell_at (grid s) x y = PATH) = ((x, y) \<in> visited s)"
      by (simp_all add: content_ok_def)
    have m: "(x, y) = wall_between ?c n \<Longrightarrow> even x \<noteq> even y"
      using par by (metis fst_conv snd_conv)
    have n': "(x, y) = n \<Longrightarrow> odd x \<and> odd y" using on by auto
    have cl: "(x, y) \<in> cells w h \<Longrightarrow> odd x \<and> odd y" by (simp add: cells_iff)
    show "(cell_at g' x y = WALL \<or> cell_at g' x y = PATH) \<and>
        (even x \<and> even y \<longrightarrow> cell_at g' x y = WALL) \<and>
        ((x, y) \<in> cells w h \<longrightarrow> (cell_at g' x y = PATH) = ((x, y) \<in> insert n (visited s)))"
      using visit(5) [OF ins] old m n' cl by auto
  qed
qed

lemma step_closed_off:
  assumes "shape w h s" and "closed_off w h s" and "stack s \<noteq> []"
    and "step rng animate s = Inr s'"
  shows "closed_off w h s'"
  using assms(1,3)
proof (cases rule: step_cases [where rng = rng and animate = animate])
  case backtrack
  with assms(4) have s': "visited s' = visited s" "stack s' = butlast (stack s)"
    by auto
  have "c = last (stack s) \<or> c \<in> visited s - set (stack s)"
    if "c \<in> visited s - set (butlast (stack s))" for c
    using that assms(3) by (metis DiffD1 DiffD2 DiffI append_butlast_last_id insert_iff list.set(2) rotate1.simps(2) set_rotate1)
  with assms(2) backtrack(2) show ?thesis
    unfolding closed_off_def s' by blast
next
  case (visit n g')
  with assms(4) have s': "visited s' = insert n (visited s)" "stack s' = stack s @ [n]"
    by auto
  from assms(2) show ?thesis
    unfolding closed_off_def s' by auto
qed

lemma step_tree:
  assumes "shape w h s" and "tree_on (visited s) (passages w h (grid s)) r"
    and "stack s \<noteq> []" and "step rng animate s = Inr s'"
  shows "tree_on (visited s') (passages w h (grid s')) r"
  using assms(1,3)
proof (cases rule: step_cases [where rng = rng and animate = animate])
  case backtrack
  with assms(4) have "visited s' = visited s" "grid s' = grid s" by auto
  with assms(2) show ?thesis by simp
next
  case (visit n g')
  let ?c = "last (stack s)"
  from visit assms(4) have s': "grid s' = g'" "visited s' = insert n (visited s)"
    by auto
  from assms(1,3) have c: "?c \<in> visited s" "?c \<in> cells w h"
    by (auto simp: shape_def dest: last_in_set)
  from c(2) visit(1,3,5) have "passages w h g' = insert {?c, n} (passages w h (grid s))"
    by (rule passages_carve)
  with tree_on_add_leaf [OF assms(2) c(1) visit(2)] show ?thesis by (simp add: s')
qed

lemma step_log:
  assumes "shape w h s" and "log_ok animate s" and "stack s \<noteq> []"
    and "step rng animate s = Inr s'"
  shows "log_ok animate s'"
  using assms(1,3)
proof (cases rule: step_cases [where rng = rng and animate = animate])
  case backtrack
  let ?c = "last (stack s)"
  from backtrack assms(4) have s': "visited s' = visited s" "stack s' = butlast (stack s)"
    "log s' = log s @ [Pop ?c]" "choices s' = choices s" "frames s' = frames s"
    by auto
  from assms(3) have st: "stack s = butlast (stack s) @ [?c]" by simp
  from assms(1) have "distinct (stack s)" "set (stack s) \<subseteq> visited s" by (simp_all add: shape_def)
  with st have c: "?c \<notin> set (butlast (stack s))" "?c \<in> visited s"
    "set (stack s) = insert ?c (set (butlast (stack s)))"
    by (metis distinct_append disjoint_iff list.set_intros(1), metis assms(3) last_in_set subsetD,
        metis Un_insert_right append_Nil2 list.simps(15) set_append)
  from assms(3) have "length (butlast (stack s)) + 1 = length (stack s)"
    by (cases "stack s") simp_all
  with assms(2) c show ?thesis
    unfolding log_ok_def s' by (auto simp: count_list_append)
next
  case (visit n g')
  with assms(4) have s': "visited s' = insert n (visited s)" "stack s' = stack s @ [n]"
    "log s' = log s @ [Push n]" "choices s' = Suc (choices s)"
    "frames s' = (if animate then frames s @ [g'] else frames s)"
    by auto
  from assms(1) have "finite (visited s)" 
    by (auto simp: shape_def intro: finite_subset [OF _ finite_cells])
  with assms(2) visit(2) show ?thesis
    unfolding log_ok_def s' by (auto simp: count_list_append)
qed

subsection \<open>The invariant along a run\<close>

text \<open>
  The loop invariant: with the parts above, the passages form a tree on the visited
  cells, rooted at \<open>(1, 1)\<close>.
\<close>

definition gen_inv :: "int \<Rightarrow> int \<Rightarrow> bool \<Rightarrow> gen_state \<Rightarrow> bool" where
  "gen_inv w h animate s \<longleftrightarrow>
     shape w h s \<and> content_ok w h s \<and> closed_off w h s \<and>
     tree_on (visited s) (passages w h (grid s)) (1, 1) \<and> log_ok animate s"

lemma step_gen_inv:
  assumes "gen_inv w h animate s" and "stack s \<noteq> []"
  shows "\<exists>s'. step rng animate s = Inr s' \<and> gen_inv w h animate s'"
proof -
  from assms have sh: "shape w h s" by (simp add: gen_inv_def)
  from step_total [OF sh assms(2)] obtain s' where s': "step rng animate s = Inr s'"
    by blast
  from assms(1) have "gen_inv w h animate s'"
    unfolding gen_inv_def
    using step_shape [OF sh assms(2) s'] step_content [OF sh _ assms(2) s']
      step_closed_off [OF sh _ assms(2) s'] step_tree [OF sh _ assms(2) s']
      step_log [OF sh _ assms(2) s']
    by blast
  with s' show ?thesis by blast
qed

lemma loop_gen_inv:
  assumes "gen_inv w h animate s"
  shows "\<exists>s'. loop rng animate s = Inr s' \<and> gen_inv w h animate s' \<and> stack s' = []"
  using assms
proof (induction rng animate s rule: loop.induct)
  case (1 rng animate s)
  show ?case
  proof (cases "stack s = []")
    case True
    with "1.prems" show ?thesis by (simp add: loop.simps)
  next
    case False
    from step_gen_inv [OF "1.prems" False] obtain s1
      where s1: "step rng animate s = Inr s1" "gen_inv w h animate s1" by blast
    from "1.IH" [OF False s1] obtain s'
      where "loop rng animate s1 = Inr s'" "gen_inv w h animate s'" "stack s' = []" by blast
    with False s1 show ?thesis by (simp add: loop.simps [of rng animate s])
  qed
qed

lemma iterate_gen_inv:
  assumes "gen_inv w h animate s"
  shows "\<exists>s'. iterate n rng animate s = Inr s' \<and> gen_inv w h animate s'"
  using assms
proof (induction n arbitrary: s)
  case 0
  then show ?case by simp
next
  case (Suc n)
  show ?case
  proof (cases "stack s = []")
    case True
    with Suc.prems show ?thesis by simp
  next
    case False
    from step_gen_inv [OF Suc.prems False] obtain s1
      where s1: "step rng animate s = Inr s1" "gen_inv w h animate s1" by blast
    from Suc.IH [OF s1(2)] s1(1) False show ?thesis by simp
  qed
qed

lemma iterate_Suc_last:
  "iterate (Suc n) rng animate s =
     (case iterate n rng animate s of
        Inl e \<Rightarrow> Inl e
      | Inr t \<Rightarrow> if stack t = [] then Inr t else step rng animate t)"
proof (induction n arbitrary: s)
  case 0
  show ?case by (simp split: sum.splits)
next
  case (Suc n)
  show ?case
  proof (cases "stack s = []")
    case True
    then show ?thesis by simp
  next
    case False
    show ?thesis
    proof (cases "step rng animate s")
      case (Inl e)
      with False show ?thesis by simp
    next
      case (Inr s1)
      have "iterate (Suc (Suc n)) rng animate s = iterate (Suc n) rng animate s1"
        using False Inr by simp
      also have "\<dots> = (case iterate n rng animate s1 of
        Inl e \<Rightarrow> Inl e
      | Inr t \<Rightarrow> if stack t = [] then Inr t else step rng animate t)" by (rule Suc.IH)
      also have "iterate n rng animate s1 = iterate (Suc n) rng animate s"
        using False Inr by simp
      finally show ?thesis .
    qed
  qed
qed

text \<open>
  The loop goes through the states of \<open>iterate\<close>: from whatever state \<open>n\<close> iterations
  reach, it continues to the same result.
\<close>

lemma loop_iterate:
  "loop rng animate s =
     (case iterate n rng animate s of Inl e \<Rightarrow> Inl e | Inr t \<Rightarrow> loop rng animate t)"
proof (induction n arbitrary: s)
  case 0
  show ?case by simp
next
  case (Suc n)
  show ?case
  proof (cases "stack s = []")
    case True
    then show ?thesis by simp
  next
    case False
    show ?thesis
    proof (cases "step rng animate s")
      case (Inl e)
      with False show ?thesis by (simp add: loop.simps [of rng animate s])
    next
      case (Inr s1)
      with False have "loop rng animate s = loop rng animate s1"
        by (simp add: loop.simps [of rng animate s])
      also have "\<dots> = (case iterate n rng animate s1 of
          Inl e \<Rightarrow> Inl e | Inr t \<Rightarrow> loop rng animate t)"
        by (rule Suc.IH)
      also have "iterate n rng animate s1 = iterate (Suc n) rng animate s"
        using False Inr by simp
      finally show ?thesis .
    qed
  qed
qed

lemma all_visited:
  assumes "shape w h s" and "closed_off w h s" and "(1, 1) \<in> visited s" and "stack s = []"
  shows "visited s = cells w h"
proof -
  let ?V = "visited s"
  from assms have sub: "?V \<subseteq> cells w h" by (simp add: shape_def)
  from assms have cl: "\<And>c q. c \<in> ?V \<Longrightarrow> q \<in> cells w h \<Longrightarrow> adjacent c q \<Longrightarrow> q \<in> ?V"
    by (simp add: closed_off_def)
  have row: "(2 * int i + 1, 1) \<in> ?V" if "int i < w" for i
    using that
  proof (induction i)
    case 0
    with assms(3) show ?case by simp
  next
    case (Suc i)
    then have prev: "(2 * int i + 1, 1) \<in> ?V" by simp
    from assms(1) Suc.prems have "(2 * int (Suc i) + 1, 1) \<in> cells w h"
      by (simp add: cells_iff shape_def)
    moreover have "adjacent (2 * int i + 1, 1) (2 * int (Suc i) + 1, 1)"
      by (simp add: adjacent_def directions_def)
    ultimately show ?case using cl [OF prev] by blast
  qed
  have col: "(2 * int i + 1, 2 * int j + 1) \<in> ?V" if "int i < w" "int j < h" for i j
    using that(2)
  proof (induction j)
    case 0
    with row [OF that(1)] show ?case by simp
  next
    case (Suc j)
    then have prev: "(2 * int i + 1, 2 * int j + 1) \<in> ?V" by simp
    from that(1) Suc.prems have "(2 * int i + 1, 2 * int (Suc j) + 1) \<in> cells w h"
      by (simp add: cells_iff)
    moreover have "adjacent (2 * int i + 1, 2 * int j + 1) (2 * int i + 1, 2 * int (Suc j) + 1)"
      by (simp add: adjacent_def directions_def)
    ultimately show ?case using cl [OF prev] by blast
  qed
  have "cells w h \<subseteq> ?V"
  proof
    fix c assume "c \<in> cells w h"
    then obtain cx cy where c: "c = (2 * cx + 1, 2 * cy + 1)" "0 \<le> cx" "cx < w" "0 \<le> cy" "cy < h"
      by (auto simp: cells_def)
    with col [of "nat cx" "nat cy"] show "c \<in> ?V" by simp
  qed
  with sub show ?thesis by blast
qed


lemma passages_cong:
  assumes "\<And>x y. inside (2 * w + 1) (2 * h + 1) x y \<Longrightarrow> even x \<noteq> even y \<Longrightarrow>
             (cell_at g' x y = PATH) = (cell_at g x y = PATH)"
  shows "passages w h g' = passages w h g"
proof -
  have "passage g' p q = passage g p q" if "p \<in> cells w h" "q \<in> cells w h" for p q
  proof (cases "adjacent p q")
    case True
    let ?m = "wall_between p q"
    from that(1) have "odd (fst p)" "odd (snd p)" by (cases p; simp add: cells_iff)+
    then have "even (fst ?m) \<noteq> even (snd ?m)" using True by (rule wall_between_parity)
    moreover from that True have "inside (2 * w + 1) (2 * h + 1) (fst ?m) (snd ?m)"
      by (rule wall_between_inside)
    ultimately show ?thesis using assms by (simp add: passage_def)
  next
    case False
    then show ?thesis by (simp add: passage_def)
  qed
  then show ?thesis unfolding passages_def by blast
qed

lemma passages_walls:
  assumes "\<And>x y. inside (2 * w + 1) (2 * h + 1) x y \<Longrightarrow> even x \<noteq> even y \<Longrightarrow>
             cell_at g x y \<noteq> PATH"
  shows "passages w h g = {}"
proof -
  have "\<not> passage g p q" if "p \<in> cells w h" "q \<in> cells w h" for p q
  proof
    assume pq: "passage g p q"
    let ?m = "wall_between p q"
    from pq have adj: "adjacent p q" by (simp add: passage_def)
    from that(1) have "odd (fst p)" "odd (snd p)" by (cases p; simp add: cells_iff)+
    then have "even (fst ?m) \<noteq> even (snd ?m)" using adj by (rule wall_between_parity)
    moreover from that adj have "inside (2 * w + 1) (2 * h + 1) (fst ?m) (snd ?m)"
      by (rule wall_between_inside)
    ultimately have "cell_at g (fst ?m) (snd ?m) \<noteq> PATH" using assms by blast
    with pq show False by (simp add: passage_def)
  qed
  then show ?thesis unfolding passages_def by blast
qed

lemma enter_gen_inv:
  assumes "1 \<le> w" and "1 \<le> h"
  shows "\<exists>m g. Maze_init w h = Inr m \<and> grid_set (grid m) 1 1 PATH = Inr g \<and>
           gen_inv w h animate (enter_loop m g)"
proof -
  let ?gw = "2 * w + 1" and ?gh = "2 * h + 1"
  define m where "m = \<lparr> width = w, height = h, grid_w = ?gw, grid_h = ?gh,
           grid = replicate (nat ?gh) (replicate (nat ?gw) WALL),
           start = (1, 1), end_pos = (?gw - 2, ?gh - 2) \<rparr>"
  have init: "Maze_init w h = Inr m" by (simp add: Maze_init_def m_def mult.commute)
  have ok: "grid_ok ?gw ?gh (grid m)" by (simp add: m_def grid_ok_replicate)
  from assms have ins: "inside ?gw ?gh 1 1" by (simp add: inside_def)
  from grid_set_effect [OF ok ins, of PATH] obtain g
    where g: "grid_set (grid m) 1 1 PATH = Inr g" "grid_ok ?gw ?gh g"
      "\<forall>x y. inside ?gw ?gh x y \<longrightarrow>
         cell_at g x y = (if x = 1 \<and> y = 1 then PATH else cell_at (grid m) x y)"
    by blast
  have at: "cell_at g x y = (if x = 1 \<and> y = 1 then PATH else WALL)"
    if "inside ?gw ?gh x y" for x y
    using g(3) that by (simp add: m_def cell_at_replicate)
  let ?s = "enter_loop m g"
  from assms have one: "(1, 1) \<in> cells w h" by (simp add: cells_iff)
  have "shape w h ?s"
    using assms g(2) one by (simp add: shape_def enter_loop_def m_def)
  moreover have "content_ok w h ?s"
    using at by (auto simp: content_ok_def enter_loop_def)
  moreover have "closed_off w h ?s"
    by (simp add: closed_off_def enter_loop_def)
  moreover have "passages w h g = {}"
    by (rule passages_walls) (auto simp: at)
  then have "tree_on (visited ?s) (passages w h (grid ?s)) (1, 1)"
    by (simp add: enter_loop_def tree_on_single)
  moreover have "log_ok animate ?s"
    by (simp add: log_ok_def enter_loop_def)
  ultimately have "gen_inv w h animate ?s" by (simp add: gen_inv_def)
  with init g(1) show ?thesis by blast
qed

lemma gen_inv_origin: "gen_inv w h animate s \<Longrightarrow> (1, 1) \<in> visited s"
  by (simp add: gen_inv_def tree_on_def)

lemma gen_inv_done:
  assumes "gen_inv w h animate s" and "stack s = []"
  shows "visited s = cells w h"
  using assms gen_inv_origin [OF assms(1)] by (intro all_visited) (simp_all add: gen_inv_def)

lemma mark_endpoints_effect:
  assumes "shape w h s"
  shows "\<exists>g'. mark_endpoints s = Inr (s\<lparr> grid := g' \<rparr>) \<and> grid_ok (2 * w + 1) (2 * h + 1) g' \<and>
           (\<forall>x y. inside (2 * w + 1) (2 * h + 1) x y \<longrightarrow>
              cell_at g' x y =
                (if x = 2 * w - 1 \<and> y = 2 * h - 1 then END
                 else if x = 1 \<and> y = 1 then START else cell_at (grid s) x y))"
proof -
  let ?gw = "2 * w + 1" and ?gh = "2 * h + 1"
  from assms have wh: "1 \<le> w" "1 \<le> h" and gw: "grid_w s = ?gw" and gh: "grid_h s = ?gh"
    and ok: "grid_ok ?gw ?gh (grid s)" by (simp_all add: shape_def)
  from wh have ins1: "inside ?gw ?gh 1 1" by (simp add: inside_def)
  from grid_set_effect [OF ok ins1, of START] obtain g1
    where g1: "grid_set (grid s) 1 1 START = Inr g1" "grid_ok ?gw ?gh g1"
      "\<forall>x y. inside ?gw ?gh x y \<longrightarrow>
         cell_at g1 x y = (if x = 1 \<and> y = 1 then START else cell_at (grid s) x y)"
    by blast
  from wh have ins2: "inside ?gw ?gh (?gw - 2) (?gh - 2)" by (simp add: inside_def)
  from grid_set_effect [OF g1(2) ins2, of END] obtain g2
    where g2: "grid_set g1 (?gw - 2) (?gh - 2) END = Inr g2" "grid_ok ?gw ?gh g2"
      "\<forall>x y. inside ?gw ?gh x y \<longrightarrow>
         cell_at g2 x y = (if x = ?gw - 2 \<and> y = ?gh - 2 then END else cell_at g1 x y)"
    by blast
  have "mark_endpoints s = Inr (s\<lparr> grid := g2 \<rparr>)"
    using g1(1) g2(1) by (simp add: mark_endpoints_def gw gh)
  moreover have "cell_at g2 x y =
                (if x = 2 * w - 1 \<and> y = 2 * h - 1 then END
                 else if x = 1 \<and> y = 1 then START else cell_at (grid s) x y)"
    if "inside ?gw ?gh x y" for x y
    using g1(3) g2(3) that by auto
  ultimately show ?thesis using g2(2) by blast
qed

lemma make_maze_run:
  assumes "1 \<le> w" and "1 \<le> h"
  shows "\<exists>m s g'. Maze_init w h = Inr m \<and> generate_loop rng animate m = Inr s \<and>
           gen_inv w h animate s \<and> stack s = [] \<and> visited s = cells w h \<and>
           make_maze w h rng animate = Inr (s\<lparr> grid := g' \<rparr>) \<and>
           grid_ok (2 * w + 1) (2 * h + 1) g' \<and>
           (\<forall>x y. inside (2 * w + 1) (2 * h + 1) x y \<longrightarrow>
              cell_at g' x y =
                (if x = 2 * w - 1 \<and> y = 2 * h - 1 then END
                 else if x = 1 \<and> y = 1 then START else cell_at (grid s) x y)) \<and>
           passages w h g' = passages w h (grid s)"
proof -
  from enter_gen_inv [OF assms, of animate] obtain m g
    where m: "Maze_init w h = Inr m" "grid_set (grid m) 1 1 PATH = Inr g"
      "gen_inv w h animate (enter_loop m g)" by blast
  from loop_gen_inv [OF m(3), of rng] obtain s
    where s: "loop rng animate (enter_loop m g) = Inr s" "gen_inv w h animate s" "stack s = []"
    by blast
  from m(2) s(1) have gl: "generate_loop rng animate m = Inr s"
    by (simp add: generate_loop_def)
  from s(2) have sh: "shape w h s" by (simp add: gen_inv_def)
  from mark_endpoints_effect [OF sh] obtain g'
    where g': "mark_endpoints s = Inr (s\<lparr> grid := g' \<rparr>)" "grid_ok (2 * w + 1) (2 * h + 1) g'"
      "\<forall>x y. inside (2 * w + 1) (2 * h + 1) x y \<longrightarrow>
              cell_at g' x y =
                (if x = 2 * w - 1 \<and> y = 2 * h - 1 then END
                 else if x = 1 \<and> y = 1 then START else cell_at (grid s) x y)"
    by blast
  have "passages w h g' = passages w h (grid s)"
    by (rule passages_cong) (use g'(3) in auto)
  moreover have "make_maze w h rng animate = Inr (s\<lparr> grid := g' \<rparr>)"
    using m(1) gl g'(1) by (simp add: make_maze_def generate_def)
  moreover note m(1) gl s(2,3) gen_inv_done [OF s(2,3)] g'(2,3)
  ultimately show ?thesis by blast
qed

lemma generate_steps_inv:
  assumes "1 \<le> w" and "1 \<le> h"
  shows "\<exists>m. Maze_init w h = Inr m \<and>
           (\<forall>n. \<exists>s. generate_steps n rng animate m = Inr s \<and> gen_inv w h animate s)"
proof -
  from enter_gen_inv [OF assms, of animate] obtain m g
    where m: "Maze_init w h = Inr m" "grid_set (grid m) 1 1 PATH = Inr g"
      "gen_inv w h animate (enter_loop m g)" by blast
  have "\<exists>s. generate_steps n rng animate m = Inr s \<and> gen_inv w h animate s" for n
    using iterate_gen_inv [OF m(3), of n rng] m(2) by (simp add: generate_steps_def)
  with m(1) show ?thesis by blast
qed

lemma adjacent_irrefl: "\<not> adjacent p p"
  by (simp add: adjacent_def directions_def)

subsection \<open>C1: the carved passages form a spanning tree\<close>

text \<open>
  Claim C1. For every width and height of at least 1 and every sequence of random choices,
  construction followed by \<open>generate\<close> returns normally, and in the final grid the
  passages between logical cells (pairs of adjacent cell positions whose separating wall
  position holds \<open>PATH\<close>) form a spanning tree of the grid graph: any two cells are
  joined by a chain of passages, no list of three or more distinct cells is a cycle of
  passages, and there are exactly \<open>width * height - 1\<close> passages, each between two
  distinct cells.
\<close>

theorem generate_spanning_tree:
  assumes "1 \<le> w" and "1 \<le> h"
  shows "\<exists>s. make_maze w h rng animate = Inr s \<and>
           (\<forall>p \<in> cells w h. \<forall>q \<in> cells w h. (p, q) \<in> (linked (passages w h (grid s)))\<^sup>*) \<and>
           (\<forall>vs. \<not> cycle (passages w h (grid s)) vs) \<and>
           int (card (passages w h (grid s))) = w * h - 1 \<and>
           (\<forall>e \<in> passages w h (grid s).
              \<exists>p q. p \<in> cells w h \<and> q \<in> cells w h \<and> p \<noteq> q \<and> e = {p, q})"
proof -
  from make_maze_run [OF assms, of rng animate] obtain s g'
    where run: "gen_inv w h animate s" "visited s = cells w h"
      "make_maze w h rng animate = Inr (s\<lparr> grid := g' \<rparr>)"
      "passages w h g' = passages w h (grid s)"
    by blast
  let ?E = "passages w h g'"
  from run(1,2,4) have tree: "tree_on (cells w h) ?E (1, 1)" by (simp add: gen_inv_def)
  have conn: "\<forall>p \<in> cells w h. \<forall>q \<in> cells w h. (p, q) \<in> (linked ?E)\<^sup>*"
    using tree_on_connected [OF tree] by blast
  from tree have acyc: "\<forall>vs. \<not> cycle ?E vs" by (simp add: tree_on_def)
  from tree have "card ?E + 1 = nat w * nat h" by (simp add: tree_on_def card_cells)
  then have "int (card ?E) + 1 = int (nat w * nat h)" by linarith
  also from assms have "\<dots> = w * h" by simp
  finally have cnt: "int (card ?E) = w * h - 1" by simp
  have two: "\<forall>e \<in> ?E. \<exists>p q. p \<in> cells w h \<and> q \<in> cells w h \<and> p \<noteq> q \<and> e = {p, q}"
  proof
    fix e assume "e \<in> ?E"
    then obtain p q where "e = {p, q}" "p \<in> cells w h" "q \<in> cells w h" "passage g' p q"
      by (rule passagesE)
    moreover from this have "p \<noteq> q" by (auto simp: passage_def adjacent_irrefl)
    ultimately show "\<exists>p q. p \<in> cells w h \<and> q \<in> cells w h \<and> p \<noteq> q \<and> e = {p, q}" by blast
  qed
  from run(3) conn acyc cnt two show ?thesis by simp
qed

theorem generate_spanning_tree_witness:
  "\<exists>s. make_maze 2 2 (\<lambda>k. 0) True = Inr s \<and>
           (\<forall>p \<in> cells 2 2. \<forall>q \<in> cells 2 2. (p, q) \<in> (linked (passages 2 2 (grid s)))\<^sup>*) \<and>
           (\<forall>vs. \<not> cycle (passages 2 2 (grid s)) vs) \<and>
           int (card (passages 2 2 (grid s))) = 3 \<and>
           (\<forall>e \<in> passages 2 2 (grid s).
              \<exists>p q. p \<in> cells 2 2 \<and> q \<in> cells 2 2 \<and> p \<noteq> q \<and> e = {p, q})"
proof -
  have h: "1 \<le> (2::int)" by simp
  from generate_spanning_tree [OF h h, of "\<lambda>k. 0" True] show ?thesis by simp
qed

subsection \<open>C2: the loop ends, with every cell visited\<close>

text \<open>
  Claim C2. For every width and height of at least 1 and every sequence of random choices,
  the loop of \<open>generate\<close> terminates; it ends with an empty stack and with every one of
  the \<open>width * height\<close> logical cells visited; each logical cell has been pushed
  exactly once and popped exactly once (and nothing else has been pushed or popped); and
  no state the run goes through has an empty stack before every cell is visited.
\<close>

theorem loop_visits_every_cell:
  assumes "1 \<le> w" and "1 \<le> h"
  shows "\<exists>m s. Maze_init w h = Inr m \<and> generate_loop rng animate m = Inr s \<and>
           stack s = [] \<and> visited s = cells w h \<and> int (card (visited s)) = w * h \<and>
           (\<forall>c. count_list (log s) (Push c) = (if c \<in> cells w h then 1 else 0)) \<and>
           (\<forall>c. count_list (log s) (Pop c) = (if c \<in> cells w h then 1 else 0)) \<and>
           (\<forall>n t. generate_steps n rng animate m = Inr t \<and> stack t = [] \<longrightarrow>
                  visited t = cells w h)"
proof -
  from make_maze_run [OF assms, of rng animate] obtain m s
    where run: "Maze_init w h = Inr m" "generate_loop rng animate m = Inr s"
      "gen_inv w h animate s" "stack s = []" "visited s = cells w h"
    by blast
  from assms have "int (nat w * nat h) = w * h" by simp
  with run(5) have card: "int (card (visited s)) = w * h" by (simp add: card_cells)
  from run(3) have lg: "log_ok animate s" by (simp add: gen_inv_def)
  from lg run(4,5) have push: "\<forall>c. count_list (log s) (Push c) = (if c \<in> cells w h then 1 else 0)"
    and pop: "\<forall>c. count_list (log s) (Pop c) = (if c \<in> cells w h then 1 else 0)"
    by (simp_all add: log_ok_def)
  from generate_steps_inv [OF assms, of rng animate] run(1)
  have inv: "\<exists>t. generate_steps n rng animate m = Inr t \<and> gen_inv w h animate t" for n
    by auto
  have early: "\<forall>n t. generate_steps n rng animate m = Inr t \<and> stack t = [] \<longrightarrow>
                  visited t = cells w h"
    using inv gen_inv_done by (metis sum.inject(2))
  from run(1,2,4,5) card push pop early show ?thesis by blast
qed

theorem loop_visits_every_cell_witness:
  "\<exists>m s. Maze_init 2 2 = Inr m \<and> generate_loop (\<lambda>k. 0) True m = Inr s \<and>
           stack s = [] \<and> visited s = cells 2 2 \<and> int (card (visited s)) = 4 \<and>
           (\<forall>c. count_list (log s) (Push c) = (if c \<in> cells 2 2 then 1 else 0)) \<and>
           (\<forall>c. count_list (log s) (Pop c) = (if c \<in> cells 2 2 then 1 else 0)) \<and>
           (\<forall>n t. generate_steps n (\<lambda>k. 0) True m = Inr t \<and> stack t = [] \<longrightarrow>
                  visited t = cells 2 2)"
proof -
  have h: "1 \<le> (2::int)" by simp
  from loop_visits_every_cell [OF h h, of "\<lambda>k. 0" True] show ?thesis by simp
qed

subsection \<open>Facts shared by the claims below\<close>

lemma make_maze_1_1:
  "make_maze 1 1 rng animate =
     Inr \<lparr> width = 1, height = 1, grid_w = 3, grid_h = 3,
           grid = [[WALL, WALL, WALL], [WALL, END, WALL], [WALL, WALL, WALL]],
           start = (1, 1), end_pos = (1, 1), stack = [], visited = {(1, 1)},
           choices = 0, frames = [], log = [Push (1, 1), Pop (1, 1)] \<rparr>"
  by (simp add: make_maze_def Maze_init_def generate_def generate_loop_def grid_set_def
      py_index_def enter_loop_def loop.simps step_def neighbors_of_def directions_def
      mark_endpoints_def eval_nat_numeral)

lemma cells_1_1: "cells 1 1 = {(1, 1)}"
proof (intro set_eqI iffI)
  fix p :: "int \<times> int" assume "p \<in> cells 1 1"
  then have "odd (fst p)" "0 < fst p" "fst p < 2" "odd (snd p)" "0 < snd p" "snd p < 2"
    by (cases p; simp add: cells_iff)+
  then have "fst p = 1" "snd p = 1" by presburger+
  then show "p \<in> {(1, 1)}" by (cases p) simp
next
  fix p :: "int \<times> int" assume "p \<in> {(1, 1)}"
  then show "p \<in> cells 1 1" by (simp add: cells_iff)
qed

lemma passages_1_1: "passages 1 1 g = {}"
proof -
  have "\<not> passage g p q" if "p \<in> cells 1 1" "q \<in> cells 1 1" for p q
    using that by (simp add: cells_1_1 passage_def adjacent_irrefl)
  then show ?thesis unfolding passages_def by blast
qed

lemma candidates_ok:
  assumes sh: "shape w h s" and ne: "stack s \<noteq> []"
    and e: "(nx, ny, wx, wy) \<in>
              set (neighbors_of (grid_w s) (grid_h s) (visited s) (last (stack s)))"
  shows "inside (2 * w + 1) (2 * h + 1) nx ny \<and>
         inside (2 * w + 1) (2 * h + 1) (fst (last (stack s)) + wx) (snd (last (stack s)) + wy) \<and>
         odd nx \<and> odd ny \<and>
         even (fst (last (stack s)) + wx) \<noteq> even (snd (last (stack s)) + wy)"
proof -
  let ?c = "last (stack s)"
  from sh ne have c: "?c \<in> cells w h" by (auto simp: shape_def dest: last_in_set)
  then have oc: "odd (fst ?c)" "odd (snd ?c)" by (cases ?c; simp add: cells_iff)+
  from sh e have "(nx, ny, wx, wy) \<in> set (neighbors_of (2 * w + 1) (2 * h + 1) (visited s) ?c)"
    by (simp add: shape_def)
  then obtain n where n: "(nx, ny, wx, wy) =
       (fst n, snd n, fst (wall_between ?c n) - fst ?c, snd (wall_between ?c n) - snd ?c)"
    "n \<in> cells w h" "adjacent ?c n"
    using c by (rule neighbors_of_elem)
  from n(1) have eq: "n = (nx, ny)" "fst ?c + wx = fst (wall_between ?c n)"
    "snd ?c + wy = snd (wall_between ?c n)" by (auto simp: prod_eq_iff)
  from n(2) eq(1) have "inside (2 * w + 1) (2 * h + 1) nx ny" "odd nx" "odd ny"
    by (auto intro: cells_inside simp: cells_iff)
  moreover from c n(2,3)
  have "inside (2 * w + 1) (2 * h + 1) (fst (wall_between ?c n)) (snd (wall_between ?c n))"
    by (rule wall_between_inside)
  moreover from oc n(3) have "even (fst (wall_between ?c n)) \<noteq> even (snd (wall_between ?c n))"
    by (rule wall_between_parity)
  ultimately show ?thesis by (simp add: eq(2,3))
qed

lemma generate_steps_Suc:
  assumes "generate_steps n rng animate m = Inr s"
  shows "generate_steps (Suc n) rng animate m =
           (if stack s = [] then Inr s else step rng animate s)"
proof (cases "grid_set (grid m) 1 1 PATH")
  case (Inl e)
  with assms show ?thesis by (simp add: generate_steps_def)
next
  case (Inr g)
  with assms have "iterate n rng animate (enter_loop m g) = Inr s"
    by (simp add: generate_steps_def)
  with Inr show ?thesis
    by (simp add: generate_steps_def iterate_Suc_last del: iterate.simps)
qed

lemma step_effect:
  assumes inv: "gen_inv w h animate s" and ne: "stack s \<noteq> []"
    and st: "step rng animate s = Inr s'"
  shows "(stack s' = butlast (stack s) \<and> grid s' = grid s \<and> frames s' = frames s) \<or>
         (\<exists>n. stack s' = stack s @ [n] \<and> n \<in> cells w h \<and> adjacent (last (stack s)) n \<and>
              n \<noteq> wall_between (last (stack s)) n \<and>
              cell_at (grid s) (fst n) (snd n) = WALL \<and>
              cell_at (grid s) (fst (wall_between (last (stack s)) n))
                (snd (wall_between (last (stack s)) n)) = WALL \<and>
              (\<forall>x y. inside (2 * w + 1) (2 * h + 1) x y \<longrightarrow>
                 cell_at (grid s') x y =
                   (if (x, y) = n \<or> (x, y) = wall_between (last (stack s)) n then PATH
                    else cell_at (grid s) x y)) \<and>
              frames s' = (if animate then frames s @ [grid s'] else frames s))"
proof -
  from inv have sh: "shape w h s" and co: "content_ok w h s"
    and tr: "tree_on (visited s) (passages w h (grid s)) (1, 1)"
    by (simp_all add: gen_inv_def)
  from sh ne show ?thesis
  proof (cases rule: step_cases [where rng = rng and animate = animate])
    case backtrack
    with st show ?thesis by auto
  next
    case (visit n g')
    let ?c = "last (stack s)"
    let ?m = "wall_between ?c n"
    from visit st have s': "stack s' = stack s @ [n]" "grid s' = g'"
      "frames s' = (if animate then frames s @ [g'] else frames s)" by auto
    from sh ne have c: "?c \<in> cells w h" by (auto simp: shape_def dest: last_in_set)
    then have oc: "odd (fst ?c)" "odd (snd ?c)" by (cases ?c; simp add: cells_iff)+
    from visit(1) have on: "odd (fst n)" "odd (snd n)" by (cases n; simp add: cells_iff)+
    from oc visit(3) have "even (fst ?m) \<noteq> even (snd ?m)" by (rule wall_between_parity)
    with on have nm: "n \<noteq> ?m" by auto
    from visit(1) have insn: "inside (2 * w + 1) (2 * h + 1) (fst n) (snd n)"
      by (intro cells_inside) simp
    from c visit(1,3) have insm: "inside (2 * w + 1) (2 * h + 1) (fst ?m) (snd ?m)"
      by (rule wall_between_inside)
    from co insn visit(1,2) have wn: "cell_at (grid s) (fst n) (snd n) = WALL"
      unfolding content_ok_def by (metis prod.collapse)
    have "\<not> passage (grid s) ?c n"
    proof
      assume "passage (grid s) ?c n"
      with c visit(1) have "{?c, n} \<in> passages w h (grid s)" by (rule passagesI)
      moreover from tr have "\<forall>e\<in>passages w h (grid s). e \<subseteq> visited s"
        by (simp add: tree_on_def)
      ultimately have "{?c, n} \<subseteq> visited s" by blast
      with visit(2) show False by simp
    qed
    with visit(3) have "cell_at (grid s) (fst ?m) (snd ?m) \<noteq> PATH" by (simp add: passage_def)
    with co insm have wm: "cell_at (grid s) (fst ?m) (snd ?m) = WALL"
      unfolding content_ok_def by blast
    from s' visit(1,3,5) nm wn wm show ?thesis by auto
  qed
qed

lemma make_maze_nonpositive:
  assumes "w < 1 \<or> h < 1"
  shows "make_maze w h rng animate = Inl IndexError"
proof -
  let ?g = "replicate (nat (h * 2 + 1)) (replicate (nat (w * 2 + 1)) WALL)"
  have "grid_set ?g 1 1 PATH = Inl IndexError"
  proof (cases "h < 1")
    case True
    then have "py_index (length ?g) 1 = Inl IndexError" by (simp add: py_index_def)
    then show ?thesis by (simp add: grid_set_def)
  next
    case False
    with assms have w: "w < 1" and h: "1 \<le> h" by simp_all
    from h have "py_index (length ?g) 1 = Inr 1" by (simp add: py_index_def)
    moreover from h have "?g ! 1 = replicate (nat (w * 2 + 1)) WALL" by simp
    moreover from w have "py_index (length (replicate (nat (w * 2 + 1)) WALL)) 1 = Inl IndexError"
      by (simp add: py_index_def)
    ultimately show ?thesis by (simp add: grid_set_def)
  qed
  then show ?thesis
    by (simp add: make_maze_def Maze_init_def generate_def generate_loop_def)
qed

lemma step_rng_cong:
  assumes "neighbors_of (grid_w s) (grid_h s) (visited s) (last (stack s)) = [] \<or>
           rng1 (choices s) = rng2 (choices s)"
  shows "step rng1 animate s = step rng2 animate s"
  using assms by (auto simp: step_def display_def Let_def)

lemma step_choices: "step rng animate s = Inr s' \<Longrightarrow> choices s \<le> choices s'"
  by (auto simp: step_def display_def Let_def split: if_splits prod.splits sum.splits)

lemma candidates_left:
  assumes sh: "shape w h s" and ne: "stack s \<noteq> []"
    and nb: "neighbors_of (grid_w s) (grid_h s) (visited s) (last (stack s)) \<noteq> []"
  shows "card (visited s) < card (cells w h)"
proof -
  let ?c = "last (stack s)"
  let ?nb = "neighbors_of (2 * w + 1) (2 * h + 1) (visited s) ?c"
  from sh ne have c: "?c \<in> cells w h" by (auto simp: shape_def dest: last_in_set)
  from sh nb have "?nb \<noteq> []" by (simp add: shape_def)
  then have "hd ?nb \<in> set ?nb" by simp
  then obtain n where "n \<in> cells w h" "n \<notin> visited s"
    using c by (rule neighbors_of_elem)
  moreover from sh have "visited s \<subseteq> cells w h" by (simp add: shape_def)
  ultimately have "visited s \<subset> cells w h" by blast
  then show ?thesis by (intro psubset_card_mono finite_cells)
qed

lemma loop_rng_cong:
  assumes "gen_inv w h animate s"
    and "\<forall>k. choices s \<le> k \<and> k + 1 < card (cells w h) \<longrightarrow> rng1 k = rng2 k"
  shows "loop rng1 animate s = loop rng2 animate s"
  using assms
proof (induction rng1 animate s rule: loop.induct)
  case (1 rng1 animate s)
  show ?case
  proof (cases "stack s = []")
    case True
    then show ?thesis by (simp add: loop.simps)
  next
    case False
    from "1.prems"(1) have sh: "shape w h s" and lg: "log_ok animate s"
      by (simp_all add: gen_inv_def)
    from step_gen_inv [OF "1.prems"(1) False] obtain s1
      where s1: "step rng1 animate s = Inr s1" "gen_inv w h animate s1" by blast
    have "neighbors_of (grid_w s) (grid_h s) (visited s) (last (stack s)) = [] \<or>
           rng1 (choices s) = rng2 (choices s)"
    proof (cases "neighbors_of (grid_w s) (grid_h s) (visited s) (last (stack s)) = []")
      case True
      then show ?thesis by simp
    next
      case nb: False
      from candidates_left [OF sh False nb] lg have "choices s + 1 < card (cells w h)"
        by (simp add: log_ok_def)
      with "1.prems"(2) show ?thesis by simp
    qed
    then have eq: "step rng2 animate s = Inr s1"
      using s1(1) step_rng_cong [of s rng1 rng2 animate] by simp
    from step_choices [OF s1(1)] "1.prems"(2)
    have "\<forall>k. choices s1 \<le> k \<and> k + 1 < card (cells w h) \<longrightarrow> rng1 k = rng2 k" by simp
    with "1.IH" [OF False s1(1) s1(2)] have "loop rng1 animate s1 = loop rng2 animate s1" .
    with False s1(1) eq show ?thesis
      by (simp add: loop.simps [of rng1 animate s] loop.simps [of rng2 animate s])
  qed
qed

subsection \<open>C3: construction with dimensions below 1\<close>

text \<open>
  The constructor accepts width 0 and height 0: it returns a maze whose grid is the single
  row \<open>[WALL]\<close>, and raises nothing.
\<close>

theorem init_nonpositive_counterexample:
  "\<not> isl (Maze_init 0 0) \<and>
   Maze_init 0 0 = Inr \<lparr> width = 0, height = 0, grid_w = 1, grid_h = 1, grid = [[WALL]],
                         start = (1, 1), end_pos = (-1, -1) \<rparr>"
  by (simp add: Maze_init_def)

text \<open>
  Claim C3, as the code has it. For every width below 1 or height below 1, constructing the
  maze succeeds: \<open>Maze.__init__\<close> checks nothing and returns a maze whose grid has
  \<open>max(0, 2 * height + 1)\<close> rows of \<open>max(0, 2 * width + 1)\<close> walls. The dimensions
  surface only when \<open>generate\<close> runs: its first assignment \<open>grid[1][1] = PATH\<close> raises
  \<open>IndexError\<close>.
\<close>

theorem init_never_fails:
  assumes "w < 1 \<or> h < 1"
  shows "\<exists>m. Maze_init w h = Inr m \<and> width m = w \<and> height m = h \<and>
           grid m = replicate (nat (2 * h + 1)) (replicate (nat (2 * w + 1)) WALL) \<and>
           generate rng animate m = Inl IndexError \<and>
           make_maze w h rng animate = Inl IndexError"
proof -
  let ?g = "replicate (nat (2 * h + 1)) (replicate (nat (2 * w + 1)) WALL)"
  define m where "m = \<lparr> width = w, height = h, grid_w = w * 2 + 1, grid_h = h * 2 + 1,
           grid = ?g, start = (1, 1), end_pos = (w * 2 + 1 - 2, h * 2 + 1 - 2) \<rparr>"
  have init: "Maze_init w h = Inr m" by (simp add: Maze_init_def m_def mult.commute)
  have "grid_set ?g 1 1 PATH = Inl IndexError"
  proof (cases "h < 1")
    case True
    then have "py_index (length ?g) 1 = Inl IndexError" by (simp add: py_index_def)
    then show ?thesis by (simp add: grid_set_def)
  next
    case False
    with assms have w: "w < 1" and h: "1 \<le> h" by simp_all
    from h have "py_index (length ?g) 1 = Inr 1" by (simp add: py_index_def)
    moreover from h have "?g ! 1 = replicate (nat (2 * w + 1)) WALL" by simp
    moreover from w have "py_index (length (replicate (nat (2 * w + 1)) WALL)) 1 = Inl IndexError"
      by (simp add: py_index_def)
    ultimately show ?thesis by (simp add: grid_set_def)
  qed
  then have "generate rng animate m = Inl IndexError"
    by (simp add: generate_def generate_loop_def m_def)
  with init show ?thesis by (simp add: make_maze_def m_def)
qed

theorem init_never_fails_witness:
  "\<exists>m. Maze_init 0 5 = Inr m \<and> width m = 0 \<and> height m = 5 \<and>
           grid m = replicate (nat (2 * 5 + 1)) (replicate (nat (2 * 0 + 1)) WALL) \<and>
           generate (\<lambda>k. 0) True m = Inl IndexError \<and>
           make_maze 0 5 (\<lambda>k. 0) True = Inl IndexError"
proof -
  have h: "(0::int) < 1 \<or> (5::int) < 1" by simp
  from init_never_fails [OF h, of "\<lambda>k. 0" True] show ?thesis by simp
qed

subsection \<open>C4: positions with two even coordinates stay walls\<close>

text \<open>
  Claim C4. For every width and height of at least 1, in every state the run of
  \<open>generate\<close> goes through (before the loop, after each iteration) and in the final grid
  after the endpoints are marked, every grid position with two even coordinates holds
  \<open>WALL\<close>; and in every iteration the two positions a visit may write, for any candidate
  the random choice may select, are a cell with two odd coordinates and a wall position
  with one even and one odd coordinate.
\<close>

theorem posts_stay_walls:
  assumes "1 \<le> w" and "1 \<le> h"
  shows "\<exists>m. Maze_init w h = Inr m \<and>
           (\<forall>n. \<exists>s. generate_steps n rng animate m = Inr s \<and>
              (\<forall>x y. inside (grid_w s) (grid_h s) x y \<and> even x \<and> even y \<longrightarrow>
                     cell_at (grid s) x y = WALL) \<and>
              (stack s \<noteq> [] \<longrightarrow>
                 (\<forall>(nx, ny, wx, wy) \<in>
                     set (neighbors_of (grid_w s) (grid_h s) (visited s) (last (stack s))).
                    odd nx \<and> odd ny \<and>
                    even (fst (last (stack s)) + wx) \<noteq> even (snd (last (stack s)) + wy)))) \<and>
           (\<exists>t. generate rng animate m = Inr t \<and>
              (\<forall>x y. inside (grid_w t) (grid_h t) x y \<and> even x \<and> even y \<longrightarrow>
                     cell_at (grid t) x y = WALL))"
proof -
  let ?gw = "2 * w + 1" and ?gh = "2 * h + 1"
  from make_maze_run [OF assms, of rng animate] obtain m s g'
    where run: "Maze_init w h = Inr m" "generate_loop rng animate m = Inr s"
      "gen_inv w h animate s" "make_maze w h rng animate = Inr (s\<lparr> grid := g' \<rparr>)"
      "\<forall>x y. inside ?gw ?gh x y \<longrightarrow>
              cell_at g' x y =
                (if x = 2 * w - 1 \<and> y = 2 * h - 1 then END
                 else if x = 1 \<and> y = 1 then START else cell_at (grid s) x y)"
    by blast
  have during: "\<exists>s. generate_steps n rng animate m = Inr s \<and>
              (\<forall>x y. inside (grid_w s) (grid_h s) x y \<and> even x \<and> even y \<longrightarrow>
                     cell_at (grid s) x y = WALL) \<and>
              (stack s \<noteq> [] \<longrightarrow>
                 (\<forall>(nx, ny, wx, wy) \<in>
                     set (neighbors_of (grid_w s) (grid_h s) (visited s) (last (stack s))).
                    odd nx \<and> odd ny \<and>
                    even (fst (last (stack s)) + wx) \<noteq> even (snd (last (stack s)) + wy)))" for n
  proof -
    from generate_steps_inv [OF assms, of rng animate] run(1) obtain u
      where u: "generate_steps n rng animate m = Inr u" "gen_inv w h animate u" by auto
    from u(2) have sh: "shape w h u" and co: "content_ok w h u" by (simp_all add: gen_inv_def)
    from sh have dims: "grid_w u = ?gw" "grid_h u = ?gh" by (simp_all add: shape_def)
    from co have "\<forall>x y. inside (grid_w u) (grid_h u) x y \<and> even x \<and> even y \<longrightarrow>
                     cell_at (grid u) x y = WALL"
      by (simp add: content_ok_def dims)
    moreover have "stack u \<noteq> [] \<longrightarrow>
                 (\<forall>(nx, ny, wx, wy) \<in>
                     set (neighbors_of (grid_w u) (grid_h u) (visited u) (last (stack u))).
                    odd nx \<and> odd ny \<and>
                    even (fst (last (stack u)) + wx) \<noteq> even (snd (last (stack u)) + wy))"
      using candidates_ok [OF sh] by blast
    ultimately show ?thesis using u(1) by blast
  qed
  let ?t = "s\<lparr> grid := g' \<rparr>"
  from run(3) have sh: "shape w h s" and co: "content_ok w h s" by (simp_all add: gen_inv_def)
  from sh have dims: "grid_w ?t = ?gw" "grid_h ?t = ?gh" by (simp_all add: shape_def)
  from run(1,4) have gen: "generate rng animate m = Inr ?t" by (simp add: make_maze_def)
  have "cell_at (grid ?t) x y = WALL" if "inside (grid_w ?t) (grid_h ?t) x y \<and> even x \<and> even y"
    for x y
  proof -
    from that dims have ins: "inside ?gw ?gh x y" and ev: "even x" "even y" by simp_all
    from ev have "x \<noteq> 2 * w - 1" "x \<noteq> 1" by auto
    with run(5) ins have "cell_at g' x y = cell_at (grid s) x y" by simp
    with co ins ev show ?thesis by (simp add: content_ok_def)
  qed
  with gen have "\<exists>t. generate rng animate m = Inr t \<and>
              (\<forall>x y. inside (grid_w t) (grid_h t) x y \<and> even x \<and> even y \<longrightarrow>
                     cell_at (grid t) x y = WALL)" by blast
  with run(1) during show ?thesis by blast
qed

theorem posts_stay_walls_witness:
  "\<exists>m. Maze_init 2 2 = Inr m \<and>
           (\<forall>n. \<exists>s. generate_steps n (\<lambda>k. 0) True m = Inr s \<and>
              (\<forall>x y. inside (grid_w s) (grid_h s) x y \<and> even x \<and> even y \<longrightarrow>
                     cell_at (grid s) x y = WALL) \<and>
              (stack s \<noteq> [] \<longrightarrow>
                 (\<forall>(nx, ny, wx, wy) \<in>
                     set (neighbors_of (grid_w s) (grid_h s) (visited s) (last (stack s))).
                    odd nx \<and> odd ny \<and>
                    even (fst (last (stack s)) + wx) \<noteq> even (snd (last (stack s)) + wy)))) \<and>
           (\<exists>t. generate (\<lambda>k. 0) True m = Inr t \<and>
              (\<forall>x y. inside (grid_w t) (grid_h t) x y \<and> even x \<and> even y \<longrightarrow>
                     cell_at (grid t) x y = WALL))"
proof -
  have h: "1 \<le> (2::int)" by simp
  show ?thesis by (rule posts_stay_walls [OF h h])
qed

subsection \<open>C5: when a snapshot is displayed\<close>

text \<open>
  The number of iterations of the loop, split into visit steps (the iterations that push)
  and backtrack steps (the iterations that pop): the first entry of the log is the
  initial \<open>stack = [(1, 1)]\<close>, every later entry is one iteration.
\<close>

definition visit_steps :: "gen_state \<Rightarrow> nat" where
  "visit_steps s = length (filter is_push (tl (log s)))"

definition backtrack_steps :: "gen_state \<Rightarrow> nat" where
  "backtrack_steps s = length (filter (\<lambda>e. \<not> is_push e) (tl (log s)))"

lemma final_counts:
  assumes "log_ok animate s" and "stack s = []"
  shows "visit_steps s = choices s" and "backtrack_steps s = choices s + 1"
    and "length (frames s) = (if animate then choices s else 0)"
proof -
  from assms(1) obtain es where es: "log s = Push (1, 1) # es"
    by (cases "log s") (auto simp: log_ok_def)
  from assms es have p: "length (filter is_push es) = choices s"
    and l: "length es = 2 * choices s + 1"
    by (simp_all add: log_ok_def)
  from p es show "visit_steps s = choices s" by (simp add: visit_steps_def)
  have "length (filter is_push es) + length (filter (\<lambda>e. \<not> is_push e) es) = length es"
    by (rule sum_length_filter_compl)
  with p l es show "backtrack_steps s = choices s + 1" by (simp add: backtrack_steps_def)
  from assms(1) show "length (frames s) = (if animate then choices s else 0)"
    by (simp add: log_ok_def)
qed

text \<open>
  With animation on, the maze of one cell takes one backtrack step and displays nothing:
  the number of frames is not the number of steps.
\<close>

theorem frames_every_step_counterexample:
  "\<exists>s. make_maze 1 1 (\<lambda>k. 0) True = Inr s \<and> frames s = [] \<and>
        visit_steps s = 0 \<and> backtrack_steps s = 1 \<and>
        length (frames s) \<noteq> visit_steps s + backtrack_steps s"
  by (simp add: make_maze_1_1 visit_steps_def backtrack_steps_def)

text \<open>
  Claim C5, as the code has it. \<open>display\<close> is called in the visit branch only. For every
  width and height of at least 1, an iteration that pops the stack leaves the frames as
  they are, and an iteration that pushes appends the grid it has just carved when
  animation is on (and nothing when it is off). So with animation on the number of frames
  is the number of visit steps, \<open>width * height - 1\<close>, while the loop takes
  \<open>width * height\<close> backtrack steps besides.
\<close>

theorem frames_after_visits_only:
  assumes "1 \<le> w" and "1 \<le> h"
  shows "\<exists>m s. Maze_init w h = Inr m \<and> generate rng animate m = Inr s \<and>
           length (frames s) = (if animate then visit_steps s else 0) \<and>
           int (visit_steps s) = w * h - 1 \<and> int (backtrack_steps s) = w * h \<and>
           (\<forall>k. \<exists>u u'. generate_steps k rng animate m = Inr u \<and>
              generate_steps (Suc k) rng animate m = Inr u' \<and>
              (stack u \<noteq> [] \<and> stack u' = butlast (stack u) \<longrightarrow> frames u' = frames u) \<and>
              (stack u \<noteq> [] \<and> stack u' \<noteq> butlast (stack u) \<longrightarrow>
                 frames u' = (if animate then frames u @ [grid u'] else frames u)))"
proof -
  from make_maze_run [OF assms, of rng animate] obtain m s g'
    where run: "Maze_init w h = Inr m" "gen_inv w h animate s" "stack s = []"
      "visited s = cells w h" "make_maze w h rng animate = Inr (s\<lparr> grid := g' \<rparr>)"
    by blast
  let ?t = "s\<lparr> grid := g' \<rparr>"
  from run(1,5) have gen: "generate rng animate m = Inr ?t" by (simp add: make_maze_def)
  from run(2) have lg: "log_ok animate s" by (simp add: gen_inv_def)
  with run(4) have "choices s + 1 = nat w * nat h" by (simp add: log_ok_def card_cells)
  then have "int (choices s) + 1 = int (nat w * nat h)" by linarith
  also from assms have "\<dots> = w * h" by simp
  finally have ch: "int (choices s) = w * h - 1" by simp
  from final_counts [OF lg run(3)] ch
  have cnt: "length (frames ?t) = (if animate then visit_steps ?t else 0)"
    "int (visit_steps ?t) = w * h - 1" "int (backtrack_steps ?t) = w * h"
    by (simp_all add: visit_steps_def backtrack_steps_def)
  have during: "\<exists>u u'. generate_steps k rng animate m = Inr u \<and>
              generate_steps (Suc k) rng animate m = Inr u' \<and>
              (stack u \<noteq> [] \<and> stack u' = butlast (stack u) \<longrightarrow> frames u' = frames u) \<and>
              (stack u \<noteq> [] \<and> stack u' \<noteq> butlast (stack u) \<longrightarrow>
                 frames u' = (if animate then frames u @ [grid u'] else frames u))" for k
  proof -
    from generate_steps_inv [OF assms, of rng animate] run(1)
    have inv: "\<exists>s. generate_steps n rng animate m = Inr s \<and> gen_inv w h animate s" for n
      by auto
    from inv [of k] obtain u
      where u: "generate_steps k rng animate m = Inr u" "gen_inv w h animate u" by blast
    from inv [of "Suc k"] obtain u'
      where u': "generate_steps (Suc k) rng animate m = Inr u'" by blast
    have "frames u' = frames u" if "stack u \<noteq> []" "stack u' = butlast (stack u)"
    proof -
      from generate_steps_Suc [OF u(1)] u' that(1) have "step rng animate u = Inr u'" by simp
      from step_effect [OF u(2) that(1) this] that(2) show ?thesis
        by (auto dest: arg_cong [where f = length])
    qed
    moreover have "frames u' = (if animate then frames u @ [grid u'] else frames u)"
      if "stack u \<noteq> []" "stack u' \<noteq> butlast (stack u)"
    proof -
      from generate_steps_Suc [OF u(1)] u' that(1) have "step rng animate u = Inr u'" by simp
      from step_effect [OF u(2) that(1) this] that(2) show ?thesis by auto
    qed
    ultimately show ?thesis using u(1) u' by blast
  qed
  from run(1) gen cnt during show ?thesis by blast
qed

theorem frames_after_visits_only_witness:
  "\<exists>m s. Maze_init 2 2 = Inr m \<and> generate (\<lambda>k. 0) True m = Inr s \<and>
           length (frames s) = visit_steps s \<and>
           int (visit_steps s) = 3 \<and> int (backtrack_steps s) = 4 \<and>
           (\<forall>k. \<exists>u u'. generate_steps k (\<lambda>k. 0) True m = Inr u \<and>
              generate_steps (Suc k) (\<lambda>k. 0) True m = Inr u' \<and>
              (stack u \<noteq> [] \<and> stack u' = butlast (stack u) \<longrightarrow> frames u' = frames u) \<and>
              (stack u \<noteq> [] \<and> stack u' \<noteq> butlast (stack u) \<longrightarrow>
                 frames u' = frames u @ [grid u']))"
proof -
  have h: "1 \<le> (2::int)" by simp
  from frames_after_visits_only [OF h h, of "\<lambda>k. 0" True] show ?thesis by simp
qed

subsection \<open>C6: the same choices give the same maze\<close>

text \<open>
  A state with its frames dropped. The frames are written by \<open>display\<close> and read by no
  branch of \<open>generate\<close>, so a run with animation on goes through the states of the run
  with animation off, frames apart.
\<close>

definition without_frames :: "gen_state \<Rightarrow> gen_state" where
  "without_frames s = s\<lparr> frames := [] \<rparr>"

lemma step_without_frames:
  "map_sum id without_frames (step rng animate s) = step rng False (without_frames s)"
  by (auto simp: step_def display_def without_frames_def Let_def
      split: prod.splits sum.splits)

lemma loop_without_frames:
  "map_sum id without_frames (loop rng animate s) = loop rng False (without_frames s)"
proof (induction rng animate s rule: loop.induct)
  case (1 rng animate s)
  show ?case
  proof (cases "stack s = []")
    case True
    then have "stack (without_frames s) = []" by (simp add: without_frames_def)
    with True show ?thesis
      by (simp add: loop.simps [of rng animate s] loop.simps [of rng False "without_frames s"])
  next
    case False
    then have ne: "stack (without_frames s) \<noteq> []" by (simp add: without_frames_def)
    show ?thesis
    proof (cases "step rng animate s")
      case (Inl e)
      with step_without_frames [of rng animate s]
      have "step rng False (without_frames s) = Inl e" by simp
      with Inl False ne show ?thesis
        by (simp add: loop.simps [of rng animate s] loop.simps [of rng False "without_frames s"])
    next
      case (Inr s1)
      with step_without_frames [of rng animate s]
      have "step rng False (without_frames s) = Inr (without_frames s1)" by simp
      with Inr False ne "1.IH" [OF False Inr] show ?thesis
        by (simp add: loop.simps [of rng animate s] loop.simps [of rng False "without_frames s"])
    qed
  qed
qed

lemma mark_endpoints_without_frames:
  "map_sum id without_frames (mark_endpoints s) = mark_endpoints (without_frames s)"
  by (auto simp: mark_endpoints_def without_frames_def split: sum.splits)

lemma make_maze_without_frames:
  "map_sum id without_frames (make_maze w h rng animate) = make_maze w h rng False"
proof -
  have enter: "without_frames (enter_loop m g) = enter_loop m g" for m g
    by (simp add: without_frames_def enter_loop_def)
  have "map_sum id without_frames (generate rng animate m) = generate rng False m" for m
  proof (cases "grid_set (grid m) 1 1 PATH")
    case (Inl e)
    then show ?thesis by (simp add: generate_def generate_loop_def)
  next
    case (Inr g)
    show ?thesis
    proof (cases "loop rng animate (enter_loop m g)")
      case (Inl e)
      with loop_without_frames [of rng animate "enter_loop m g"]
      have "loop rng False (enter_loop m g) = Inl e" by (simp add: enter)
      with Inl Inr show ?thesis by (simp add: generate_def generate_loop_def)
    next
      case s: (Inr s)
      with loop_without_frames [of rng animate "enter_loop m g"]
      have "loop rng False (enter_loop m g) = Inr (without_frames s)" by (simp add: enter)
      with s Inr show ?thesis
        by (simp add: generate_def generate_loop_def mark_endpoints_without_frames)
    qed
  qed
  then show ?thesis by (simp add: make_maze_def Maze_init_def)
qed

lemma grid_animate_irrelevant:
  "map_sum id grid (make_maze w h rng animate) = map_sum id grid (make_maze w h rng False)"
proof -
  have "map_sum id grid (map_sum id without_frames x) = map_sum id grid x"
    for x :: "error + gen_state"
    by (cases x) (simp_all add: without_frames_def)
  from this [of "make_maze w h rng animate"] show ?thesis
    by (simp add: make_maze_without_frames)
qed

lemma make_maze_rng_cong:
  assumes "\<forall>k. int k + 1 < w * h \<longrightarrow> rng1 k = rng2 k"
  shows "make_maze w h rng1 animate = make_maze w h rng2 animate"
proof (cases "1 \<le> w \<and> 1 \<le> h")
  case False
  then have "w < 1 \<or> h < 1" by auto
  then show ?thesis by (simp add: make_maze_nonpositive)
next
  case True
  then have wh: "1 \<le> w" "1 \<le> h" by simp_all
  from enter_gen_inv [OF wh, of animate] obtain m g
    where m: "Maze_init w h = Inr m" "grid_set (grid m) 1 1 PATH = Inr g"
      "gen_inv w h animate (enter_loop m g)" by blast
  from wh have "int (card (cells w h)) = w * h" by (simp add: card_cells)
  with assms have "\<forall>k. choices (enter_loop m g) \<le> k \<and> k + 1 < card (cells w h) \<longrightarrow>
      rng1 k = rng2 k"
    by (metis of_nat_1 of_nat_add of_nat_less_iff)
  with m(3) have "loop rng1 animate (enter_loop m g) = loop rng2 animate (enter_loop m g)"
    by (rule loop_rng_cong)
  with m(1,2) show ?thesis
    by (simp add: make_maze_def generate_def generate_loop_def)
qed

text \<open>
  Claim C6. For every width and height, two runs of \<open>generate\<close> whose random choices
  agree (on the first \<open>width * height - 1\<close> calls of \<open>random.choice\<close>, the only ones a
  run makes) end in the same final grid, whether or not either run is animated; and with
  the same animation flag they end in the same result altogether, frames included.
\<close>

theorem generation_deterministic:
  assumes "\<forall>k. int k + 1 < w * h \<longrightarrow> rng1 k = rng2 k"
  shows "map_sum id grid (make_maze w h rng1 animate1) =
           map_sum id grid (make_maze w h rng2 animate2) \<and>
         make_maze w h rng1 animate1 = make_maze w h rng2 animate1"
proof -
  have "map_sum id grid (make_maze w h rng1 animate1) =
          map_sum id grid (make_maze w h rng1 False)"
    by (rule grid_animate_irrelevant)
  also have "make_maze w h rng1 False = make_maze w h rng2 False"
    using assms by (rule make_maze_rng_cong)
  also have "map_sum id grid (make_maze w h rng2 False) =
          map_sum id grid (make_maze w h rng2 animate2)"
    by (rule grid_animate_irrelevant [symmetric])
  finally have "map_sum id grid (make_maze w h rng1 animate1) =
           map_sum id grid (make_maze w h rng2 animate2)" .
  moreover have "make_maze w h rng1 animate1 = make_maze w h rng2 animate1"
    using assms by (rule make_maze_rng_cong)
  ultimately show ?thesis by simp
qed

theorem generation_deterministic_witness:
  "map_sum id grid (make_maze 2 2 (\<lambda>k. 0) True) =
     map_sum id grid (make_maze 2 2 (\<lambda>k. if k < 3 then 0 else 1) False) \<and>
   make_maze 2 2 (\<lambda>k. 0) True = make_maze 2 2 (\<lambda>k. if k < 3 then 0 else 1) True"
proof -
  have h: "\<forall>k. int k + 1 < 2 * 2 \<longrightarrow> (\<lambda>k. 0::nat) k = (\<lambda>k. if k < 3 then 0 else 1) k"
    by simp
  from generation_deterministic [OF h, where ?animate1.0 = True and ?animate2.0 = False]
  show ?thesis .
qed

subsection \<open>C7: the maze of one cell\<close>

text \<open>
  Claim C7. For width 1 and height 1, \<open>generate\<close> returns a maze with a single logical
  cell, \<open>(1, 1)\<close>, and no carved passage between distinct cells (no random choice is
  made); the start position equals the end position.
\<close>

theorem single_cell_maze:
  "\<exists>s. make_maze 1 1 rng animate = Inr s \<and>
        grid s = [[WALL, WALL, WALL], [WALL, END, WALL], [WALL, WALL, WALL]] \<and>
        cells 1 1 = {(1, 1)} \<and> visited s = {(1, 1)} \<and>
        passages 1 1 (grid s) = {} \<and> choices s = 0 \<and>
        start s = (1, 1) \<and> end_pos s = start s"
  by (simp add: make_maze_1_1 cells_1_1 passages_1_1)

theorem single_cell_maze_witness:
  "\<exists>s. make_maze 1 1 (\<lambda>k. 0) True = Inr s \<and>
        grid s = [[WALL, WALL, WALL], [WALL, END, WALL], [WALL, WALL, WALL]] \<and>
        cells 1 1 = {(1, 1)} \<and> visited s = {(1, 1)} \<and>
        passages 1 1 (grid s) = {} \<and> choices s = 0 \<and>
        start s = (1, 1) \<and> end_pos s = start s"
  by (rule single_cell_maze)

subsection \<open>C8: generation raises nothing\<close>

text \<open>
  Claim C8. For every width and height of at least 1 and every sequence of random choices,
  \<open>generate\<close> returns normally, and every index of an assignment to the grid lies inside
  the grid of \<open>grid_h\<close> rows and \<open>grid_w\<close> columns: the fixed positions \<open>(1, 1)\<close> and
  \<open>(grid_w - 2, grid_h - 2)\<close>, and, in every state the run goes through (where the grid
  keeps its shape), the wall position and the cell of every candidate the random choice
  may select.
\<close>

theorem generate_cannot_fail:
  assumes "1 \<le> w" and "1 \<le> h"
  shows "\<exists>m t. Maze_init w h = Inr m \<and> generate rng animate m = Inr t \<and>
           grid_w m = 2 * w + 1 \<and> grid_h m = 2 * h + 1 \<and>
           inside (grid_w m) (grid_h m) 1 1 \<and>
           inside (grid_w m) (grid_h m) (grid_w m - 2) (grid_h m - 2) \<and>
           (\<forall>n. \<exists>s. generate_steps n rng animate m = Inr s \<and>
              grid_w s = grid_w m \<and> grid_h s = grid_h m \<and>
              length (grid s) = nat (grid_h s) \<and>
              (\<forall>row \<in> set (grid s). length row = nat (grid_w s)) \<and>
              (stack s \<noteq> [] \<longrightarrow>
                 (\<forall>(nx, ny, wx, wy) \<in>
                     set (neighbors_of (grid_w s) (grid_h s) (visited s) (last (stack s))).
                    inside (grid_w s) (grid_h s) nx ny \<and>
                    inside (grid_w s) (grid_h s)
                      (fst (last (stack s)) + wx) (snd (last (stack s)) + wy))))"
proof -
  let ?gw = "2 * w + 1" and ?gh = "2 * h + 1"
  from make_maze_run [OF assms, of rng animate] obtain m s g'
    where run: "Maze_init w h = Inr m" "make_maze w h rng animate = Inr (s\<lparr> grid := g' \<rparr>)"
    by blast
  from run have gen: "generate rng animate m = Inr (s\<lparr> grid := g' \<rparr>)"
    by (simp add: make_maze_def)
  from run(1) have dims: "grid_w m = ?gw" "grid_h m = ?gh"
    by (auto simp: Maze_init_def)
  from assms have ins: "inside ?gw ?gh 1 1" "inside ?gw ?gh (?gw - 2) (?gh - 2)"
    by (simp_all add: inside_def)
  have during: "\<exists>s. generate_steps n rng animate m = Inr s \<and>
              grid_w s = grid_w m \<and> grid_h s = grid_h m \<and>
              length (grid s) = nat (grid_h s) \<and>
              (\<forall>row \<in> set (grid s). length row = nat (grid_w s)) \<and>
              (stack s \<noteq> [] \<longrightarrow>
                 (\<forall>(nx, ny, wx, wy) \<in>
                     set (neighbors_of (grid_w s) (grid_h s) (visited s) (last (stack s))).
                    inside (grid_w s) (grid_h s) nx ny \<and>
                    inside (grid_w s) (grid_h s)
                      (fst (last (stack s)) + wx) (snd (last (stack s)) + wy)))" for n
  proof -
    from generate_steps_inv [OF assms, of rng animate] run(1) obtain u
      where u: "generate_steps n rng animate m = Inr u" "gen_inv w h animate u" by auto
    from u(2) have sh: "shape w h u" by (simp add: gen_inv_def)
    from sh have d: "grid_w u = ?gw" "grid_h u = ?gh" and ok: "grid_ok ?gw ?gh (grid u)"
      by (simp_all add: shape_def)
    have "stack u \<noteq> [] \<longrightarrow>
                 (\<forall>(nx, ny, wx, wy) \<in>
                     set (neighbors_of (grid_w u) (grid_h u) (visited u) (last (stack u))).
                    inside (grid_w u) (grid_h u) nx ny \<and>
                    inside (grid_w u) (grid_h u)
                      (fst (last (stack u)) + wx) (snd (last (stack u)) + wy))"
      using candidates_ok [OF sh] by (auto simp: d)
    with u(1) d ok dims show ?thesis by (auto simp: grid_ok_def)
  qed
  from run(1) gen dims ins during show ?thesis by auto
qed

theorem generate_cannot_fail_witness:
  "\<exists>m t. Maze_init 2 2 = Inr m \<and> generate (\<lambda>k. 0) True m = Inr t \<and>
           grid_w m = 2 * 2 + 1 \<and> grid_h m = 2 * 2 + 1 \<and>
           inside (grid_w m) (grid_h m) 1 1 \<and>
           inside (grid_w m) (grid_h m) (grid_w m - 2) (grid_h m - 2) \<and>
           (\<forall>n. \<exists>s. generate_steps n (\<lambda>k. 0) True m = Inr s \<and>
              grid_w s = grid_w m \<and> grid_h s = grid_h m \<and>
              length (grid s) = nat (grid_h s) \<and>
              (\<forall>row \<in> set (grid s). length row = nat (grid_w s)) \<and>
              (stack s \<noteq> [] \<longrightarrow>
                 (\<forall>(nx, ny, wx, wy) \<in>
                     set (neighbors_of (grid_w s) (grid_h s) (visited s) (last (stack s))).
                    inside (grid_w s) (grid_h s) nx ny \<and>
                    inside (grid_w s) (grid_h s)
                      (fst (last (stack s)) + wx) (snd (last (stack s)) + wy))))"
proof -
  have h: "1 \<le> (2::int)" by simp
  show ?thesis by (rule generate_cannot_fail [OF h h])
qed

subsection \<open>C9: the order of the endpoint marks\<close>

text \<open>
  Claim C9. After the loop, \<open>generate\<close> writes \<open>START\<close> at \<open>(1, 1)\<close> and then \<open>END\<close> at
  \<open>(grid_w - 2, grid_h - 2)\<close>: the final grid is the grid the loop left, with \<open>END\<close> at
  the second position and \<open>START\<close> at the first unless the two coincide. They coincide
  exactly for width 1 and height 1, where \<open>END\<close> overwrites \<open>START\<close>: the final grid
  then holds an \<open>END\<close> cell and no \<open>START\<close> cell.
\<close>

theorem endpoints_marked:
  assumes "1 \<le> w" and "1 \<le> h"
  shows "\<exists>m s t. Maze_init w h = Inr m \<and> generate_loop rng animate m = Inr s \<and>
           make_maze w h rng animate = Inr t \<and>
           (\<forall>x y. inside (grid_w t) (grid_h t) x y \<longrightarrow>
              cell_at (grid t) x y =
                (if x = grid_w t - 2 \<and> y = grid_h t - 2 then END
                 else if x = 1 \<and> y = 1 then START else cell_at (grid s) x y)) \<and>
           cell_at (grid t) (grid_w t - 2) (grid_h t - 2) = END \<and>
           (cell_at (grid t) 1 1 = START) = (\<not> (w = 1 \<and> h = 1)) \<and>
           (w = 1 \<and> h = 1 \<longrightarrow>
              (1, 1) = (grid_w t - 2, grid_h t - 2) \<and>
              grid t = [[WALL, WALL, WALL], [WALL, END, WALL], [WALL, WALL, WALL]] \<and>
              END \<in> \<Union> (set ` set (grid t)) \<and> START \<notin> \<Union> (set ` set (grid t)))"
proof -
  let ?gw = "2 * w + 1" and ?gh = "2 * h + 1"
  from make_maze_run [OF assms, of rng animate] obtain m s g'
    where run: "Maze_init w h = Inr m" "generate_loop rng animate m = Inr s"
      "gen_inv w h animate s" "make_maze w h rng animate = Inr (s\<lparr> grid := g' \<rparr>)"
      "\<forall>x y. inside ?gw ?gh x y \<longrightarrow>
              cell_at g' x y =
                (if x = 2 * w - 1 \<and> y = 2 * h - 1 then END
                 else if x = 1 \<and> y = 1 then START else cell_at (grid s) x y)"
    by blast
  let ?t = "s\<lparr> grid := g' \<rparr>"
  from run(3) have dims: "grid_w ?t = ?gw" "grid_h ?t = ?gh" by (simp_all add: gen_inv_def shape_def)
  have a: "\<forall>x y. inside (grid_w ?t) (grid_h ?t) x y \<longrightarrow>
              cell_at (grid ?t) x y =
                (if x = grid_w ?t - 2 \<and> y = grid_h ?t - 2 then END
                 else if x = 1 \<and> y = 1 then START else cell_at (grid s) x y)"
    using run(5) by (simp add: dims)
  from assms have i1: "inside ?gw ?gh 1 1" and i2: "inside ?gw ?gh (?gw - 2) (?gh - 2)"
    by (simp_all add: inside_def)
  from run(5) i2 have b: "cell_at (grid ?t) (grid_w ?t - 2) (grid_h ?t - 2) = END"
    by (simp add: dims)
  from run(5) i1 assms have c: "(cell_at (grid ?t) 1 1 = START) = (\<not> (w = 1 \<and> h = 1))"
    by auto
  have d: "w = 1 \<and> h = 1 \<longrightarrow>
              (1, 1) = (grid_w ?t - 2, grid_h ?t - 2) \<and>
              grid ?t = [[WALL, WALL, WALL], [WALL, END, WALL], [WALL, WALL, WALL]] \<and>
              END \<in> \<Union> (set ` set (grid ?t)) \<and> START \<notin> \<Union> (set ` set (grid ?t))"
  proof
    assume one: "w = 1 \<and> h = 1"
    with run(4) make_maze_1_1 [of rng animate]
    have "grid ?t = [[WALL, WALL, WALL], [WALL, END, WALL], [WALL, WALL, WALL]]"
      by (metis maze.select_convs(5) sum.inject(2))
    with one dims show "(1, 1) = (grid_w ?t - 2, grid_h ?t - 2) \<and>
              grid ?t = [[WALL, WALL, WALL], [WALL, END, WALL], [WALL, WALL, WALL]] \<and>
              END \<in> \<Union> (set ` set (grid ?t)) \<and> START \<notin> \<Union> (set ` set (grid ?t))"
      by simp
  qed
  from run(1,2,4) a b c d show ?thesis by blast
qed

theorem endpoints_marked_witness:
  "\<exists>m s t. Maze_init 1 1 = Inr m \<and> generate_loop (\<lambda>k. 0) True m = Inr s \<and>
           make_maze 1 1 (\<lambda>k. 0) True = Inr t \<and>
           cell_at (grid t) (grid_w t - 2) (grid_h t - 2) = END \<and>
           cell_at (grid t) 1 1 \<noteq> START \<and>
           (1, 1) = (grid_w t - 2, grid_h t - 2) \<and>
           grid t = [[WALL, WALL, WALL], [WALL, END, WALL], [WALL, WALL, WALL]] \<and>
           END \<in> \<Union> (set ` set (grid t)) \<and> START \<notin> \<Union> (set ` set (grid t))"
proof -
  have h: "1 \<le> (1::int)" by simp
  from endpoints_marked [OF h h, of "\<lambda>k. 0" True] show ?thesis by auto
qed

subsection \<open>C10: what one iteration changes in the grid\<close>

text \<open>
  Claim C10. For every width and height of at least 1, each iteration of the loop is
  either a backtrack step, which pops the stack and leaves the grid as it is, or a visit
  step, which pushes a cell adjacent to the current one and changes exactly two grid
  positions, the chosen cell and the wall position between it and the current cell, both
  from \<open>WALL\<close> to \<open>PATH\<close>. So every position that holds \<open>PATH\<close> before an iteration
  holds \<open>PATH\<close> after it.
\<close>

theorem steps_only_carve:
  assumes "1 \<le> w" and "1 \<le> h"
  shows "\<exists>m. Maze_init w h = Inr m \<and>
           (\<forall>k. \<exists>s s'. generate_steps k rng animate m = Inr s \<and>
              generate_steps (Suc k) rng animate m = Inr s' \<and>
              (stack s = [] \<longrightarrow> s' = s) \<and>
              (stack s \<noteq> [] \<longrightarrow>
                 (stack s' = butlast (stack s) \<and> grid s' = grid s) \<or>
                 (\<exists>n. stack s' = stack s @ [n] \<and> adjacent (last (stack s)) n \<and>
                    {(x, y). inside (grid_w s) (grid_h s) x y \<and>
                             cell_at (grid s') x y \<noteq> cell_at (grid s) x y} =
                      {n, wall_between (last (stack s)) n} \<and>
                    n \<noteq> wall_between (last (stack s)) n \<and>
                    cell_at (grid s) (fst n) (snd n) = WALL \<and>
                    cell_at (grid s') (fst n) (snd n) = PATH \<and>
                    cell_at (grid s) (fst (wall_between (last (stack s)) n))
                      (snd (wall_between (last (stack s)) n)) = WALL \<and>
                    cell_at (grid s') (fst (wall_between (last (stack s)) n))
                      (snd (wall_between (last (stack s)) n)) = PATH)) \<and>
              (\<forall>x y. inside (grid_w s) (grid_h s) x y \<and> cell_at (grid s) x y = PATH \<longrightarrow>
                     cell_at (grid s') x y = PATH))"
proof -
  let ?gw = "2 * w + 1" and ?gh = "2 * h + 1"
  from generate_steps_inv [OF assms, of rng animate] obtain m
    where m: "Maze_init w h = Inr m"
      "\<And>n. \<exists>s. generate_steps n rng animate m = Inr s \<and> gen_inv w h animate s"
    by blast
  have "\<exists>s s'. generate_steps k rng animate m = Inr s \<and>
              generate_steps (Suc k) rng animate m = Inr s' \<and>
              (stack s = [] \<longrightarrow> s' = s) \<and>
              (stack s \<noteq> [] \<longrightarrow>
                 (stack s' = butlast (stack s) \<and> grid s' = grid s) \<or>
                 (\<exists>n. stack s' = stack s @ [n] \<and> adjacent (last (stack s)) n \<and>
                    {(x, y). inside (grid_w s) (grid_h s) x y \<and>
                             cell_at (grid s') x y \<noteq> cell_at (grid s) x y} =
                      {n, wall_between (last (stack s)) n} \<and>
                    n \<noteq> wall_between (last (stack s)) n \<and>
                    cell_at (grid s) (fst n) (snd n) = WALL \<and>
                    cell_at (grid s') (fst n) (snd n) = PATH \<and>
                    cell_at (grid s) (fst (wall_between (last (stack s)) n))
                      (snd (wall_between (last (stack s)) n)) = WALL \<and>
                    cell_at (grid s') (fst (wall_between (last (stack s)) n))
                      (snd (wall_between (last (stack s)) n)) = PATH)) \<and>
              (\<forall>x y. inside (grid_w s) (grid_h s) x y \<and> cell_at (grid s) x y = PATH \<longrightarrow>
                     cell_at (grid s') x y = PATH)" for k
  proof -
    from m(2) [of k] obtain s
      where s: "generate_steps k rng animate m = Inr s" "gen_inv w h animate s" by blast
    from m(2) [of "Suc k"] obtain s'
      where s': "generate_steps (Suc k) rng animate m = Inr s'" by blast
    from s(2) have sh: "shape w h s" by (simp add: gen_inv_def)
    then have dims: "grid_w s = ?gw" "grid_h s = ?gh" by (simp_all add: shape_def)
    show ?thesis
    proof (cases "stack s = []")
      case True
      with generate_steps_Suc [OF s(1)] s' have "s' = s" by simp
      with s(1) s' True show ?thesis by auto
    next
      case False
      let ?c = "last (stack s)"
      from generate_steps_Suc [OF s(1)] s' False have st: "step rng animate s = Inr s'" by simp
      from step_effect [OF s(2) False st]
      consider (popped) "stack s' = butlast (stack s)" "grid s' = grid s"
        | (vis) n where "stack s' = stack s @ [n]" "n \<in> cells w h" "adjacent ?c n"
            "n \<noteq> wall_between ?c n" "cell_at (grid s) (fst n) (snd n) = WALL"
            "cell_at (grid s) (fst (wall_between ?c n)) (snd (wall_between ?c n)) = WALL"
            "\<forall>x y. inside ?gw ?gh x y \<longrightarrow>
                 cell_at (grid s') x y =
                   (if (x, y) = n \<or> (x, y) = wall_between ?c n then PATH
                    else cell_at (grid s) x y)"
        by blast
      then show ?thesis
      proof cases
        case popped
        with popped s(1) s' False show ?thesis by auto
      next
        case vis
        let ?m = "wall_between ?c n"
        from sh False have c: "?c \<in> cells w h" by (auto simp: shape_def dest: last_in_set)
        from vis(2) have insn: "inside ?gw ?gh (fst n) (snd n)" by (intro cells_inside) simp
        from c vis(2,3) have insm: "inside ?gw ?gh (fst ?m) (snd ?m)"
          by (rule wall_between_inside)
        from vis(7) insn have pn: "cell_at (grid s') (fst n) (snd n) = PATH" by simp
        from vis(7) insm have pm: "cell_at (grid s') (fst ?m) (snd ?m) = PATH" by simp
        have chg: "{(x, y). inside (grid_w s) (grid_h s) x y \<and>
                     cell_at (grid s') x y \<noteq> cell_at (grid s) x y} = {n, ?m}"
        proof (intro set_eqI iffI)
          fix p assume "p \<in> {(x, y). inside (grid_w s) (grid_h s) x y \<and>
                     cell_at (grid s') x y \<noteq> cell_at (grid s) x y}"
          then have "inside ?gw ?gh (fst p) (snd p)"
            "cell_at (grid s') (fst p) (snd p) \<noteq> cell_at (grid s) (fst p) (snd p)"
            by (auto simp: dims)
          with vis(7) have "p = n \<or> p = ?m" by (metis prod.collapse)
          then show "p \<in> {n, ?m}" by simp
        next
          fix p assume "p \<in> {n, ?m}"
          then consider "p = n" | "p = ?m" by auto
          then show "p \<in> {(x, y). inside (grid_w s) (grid_h s) x y \<and>
                     cell_at (grid s') x y \<noteq> cell_at (grid s) x y}"
          proof cases
            case 1
            with insn pn vis(5) show ?thesis by (cases n) (simp add: dims)
          next
            case 2
            with insm pm vis(6) show ?thesis by (cases "?m") (simp add: dims)
          qed
        qed
        have mono: "\<forall>x y. inside (grid_w s) (grid_h s) x y \<and> cell_at (grid s) x y = PATH \<longrightarrow>
                     cell_at (grid s') x y = PATH"
          using vis(7) by (simp add: dims)
        from vis(1,3,4,5,6) pn pm chg
        have "\<exists>n. stack s' = stack s @ [n] \<and> adjacent (last (stack s)) n \<and>
                    {(x, y). inside (grid_w s) (grid_h s) x y \<and>
                             cell_at (grid s') x y \<noteq> cell_at (grid s) x y} =
                      {n, wall_between (last (stack s)) n} \<and>
                    n \<noteq> wall_between (last (stack s)) n \<and>
                    cell_at (grid s) (fst n) (snd n) = WALL \<and>
                    cell_at (grid s') (fst n) (snd n) = PATH \<and>
                    cell_at (grid s) (fst (wall_between (last (stack s)) n))
                      (snd (wall_between (last (stack s)) n)) = WALL \<and>
                    cell_at (grid s') (fst (wall_between (last (stack s)) n))
                      (snd (wall_between (last (stack s)) n)) = PATH"
          by blast
        with s(1) s' False mono show ?thesis by blast
      qed
    qed
  qed
  with m(1) show ?thesis by blast
qed

theorem steps_only_carve_witness:
  "\<exists>m. Maze_init 2 2 = Inr m \<and>
           (\<forall>k. \<exists>s s'. generate_steps k (\<lambda>k. 0) True m = Inr s \<and>
              generate_steps (Suc k) (\<lambda>k. 0) True m = Inr s' \<and>
              (stack s = [] \<longrightarrow> s' = s) \<and>
              (stack s \<noteq> [] \<longrightarrow>
                 (stack s' = butlast (stack s) \<and> grid s' = grid s) \<or>
                 (\<exists>n. stack s' = stack s @ [n] \<and> adjacent (last (stack s)) n \<and>
                    {(x, y). inside (grid_w s) (grid_h s) x y \<and>
                             cell_at (grid s') x y \<noteq> cell_at (grid s) x y} =
                      {n, wall_between (last (stack s)) n} \<and>
                    n \<noteq> wall_between (last (stack s)) n \<and>
                    cell_at (grid s) (fst n) (snd n) = WALL \<and>
                    cell_at (grid s') (fst n) (snd n) = PATH \<and>
                    cell_at (grid s) (fst (wall_between (last (stack s)) n))
                      (snd (wall_between (last (stack s)) n)) = WALL \<and>
                    cell_at (grid s') (fst (wall_between (last (stack s)) n))
                      (snd (wall_between (last (stack s)) n)) = PATH)) \<and>
              (\<forall>x y. inside (grid_w s) (grid_h s) x y \<and> cell_at (grid s) x y = PATH \<longrightarrow>
                     cell_at (grid s') x y = PATH))"
proof -
  have h: "1 \<le> (2::int)" by simp
  show ?thesis by (rule steps_only_carve [OF h h])
qed

end
